theory Spec2Isabelle
  imports Main "HOL-Library.Char_ord" "HOL-Library.List_Lexorder"
    "HOL-Library.Product_Lexorder"
begin

section \<open>Strings\<close>

text \<open>
  Python strings are modelled as \<open>string\<close>: a list of characters, each one of the code
  points 0 to 255, read as Python reads them (Latin-1). Strings are compared as Python
  compares them: lexicographically by code point, a proper prefix first.
\<close>

definition ascii_lowercase :: string where
  "ascii_lowercase = ''abcdefghijklmnopqrstuvwxyz''"

definition ascii_uppercase :: string where
  "ascii_uppercase = ''ABCDEFGHIJKLMNOPQRSTUVWXYZ''"

definition digits :: string where
  "digits = ''0123456789''"

text \<open>
  \<open>str.isalpha\<close> on one character: the ASCII letters, the ordinal indicators 0xAA and
  0xBA, the micro sign 0xB5 and the letters 0xC0 to 0xFF, among which the multiplication
  sign 0xD7 and the division sign 0xF7 are no letters.
\<close>

definition isalpha :: "char \<Rightarrow> bool" where
  "isalpha c =
     (let n = (of_char c :: nat) in
      (65 \<le> n \<and> n \<le> 90) \<or> (97 \<le> n \<and> n \<le> 122) \<or> n = 170 \<or> n = 181 \<or> n = 186
      \<or> (192 \<le> n \<and> n \<le> 214) \<or> (216 \<le> n \<and> n \<le> 246) \<or> (248 \<le> n \<and> n \<le> 255))"

text \<open>
  \<open>str.upper\<close> may leave the 8-bit range (the micro sign becomes the Greek capital mu,
  \<open>0xFF\<close> becomes \<open>U+0178\<close>) and may lengthen the string (the sharp s \<open>0xDF\<close> becomes
  \<open>SS\<close>), so its result is a list of code points.
\<close>

type_synonym code_point = nat

definition code_points :: "string \<Rightarrow> code_point list" where
  "code_points s = map of_char s"

definition upper_code_points :: "char \<Rightarrow> code_point list" where
  "upper_code_points c =
     (let n = (of_char c :: nat) in
      if 97 \<le> n \<and> n \<le> 122 then [n - 32]
      else if n = 181 then [924]
      else if n = 223 then [83, 83]
      else if 224 \<le> n \<and> n \<le> 254 \<and> n \<noteq> 247 then [n - 32]
      else if n = 255 then [376]
      else [n])"

definition str_upper :: "string \<Rightarrow> code_point list" where
  "str_upper s = concat (map upper_code_points s)"

text \<open>
  The class \<open>\d\<close> of the regular expressions, on 8-bit text the digits \<open>0..9\<close>, and
  \<open>str.isdigit\<close>, which also holds of the superscript digits 0xB2, 0xB3 and 0xB9.
\<close>

definition isdigit :: "char \<Rightarrow> bool" where
  "isdigit c = (c \<in> set digits)"

definition superscript_digits :: string where
  "superscript_digits = [CHR 0xB2, CHR 0xB3, CHR 0xB9]"

definition str_isdigit :: "string \<Rightarrow> bool" where
  "str_isdigit s = (s \<noteq> [] \<and> list_all (\<lambda>c. isdigit c \<or> c \<in> set superscript_digits) s)"

text \<open>
  The case folding under which \<open>re.IGNORECASE\<close> compares a character of 8-bit text with
  an ASCII letter of the pattern: \<open>a..z\<close> go to \<open>A..Z\<close>, every other character stays.
\<close>

definition upper_char :: "char \<Rightarrow> char" where
  "upper_char c = (case map_of (zip ascii_lowercase ascii_uppercase) c of
                     Some u \<Rightarrow> u | None \<Rightarrow> c)"

definition upper :: "string \<Rightarrow> string" where
  "upper s = map upper_char s"

text \<open>\<open>sep.join(xs)\<close>\<close>

fun join :: "string \<Rightarrow> string list \<Rightarrow> string" where
  "join sep [] = []"
| "join sep [x] = x"
| "join sep (x # y # ys) = x @ sep @ join sep (y # ys)"

section \<open>Data model (models.py)\<close>

record pin =
  designator :: string
  pin_name :: string
  pin_net :: string

record component =
  refdes :: string
  comp_value :: string
  footprint :: string
  mpn :: string
  page :: string
  description :: string
  pins :: "pin list"
  location :: "int \<times> int"
  properties :: "(string \<times> string) list"
  multipart_parent :: "string option"

record net =
  net_name :: string
  pages :: "string set"
  members :: "(string \<times> string) list"

subsection \<open>Component.derived_type\<close>

text \<open>
  The loop \<open>for char in self.refdes: if char.isalpha(): prefix += char else: break\<close>,
  with the prefix built so far as accumulator.
\<close>

fun refdes_prefix :: "string \<Rightarrow> string \<Rightarrow> string" where
  "refdes_prefix prefix [] = prefix"
| "refdes_prefix prefix (c # cs) =
     (if isalpha c then refdes_prefix (prefix @ [c]) cs else prefix)"

definition derived_type :: "component \<Rightarrow> string" where
  "derived_type c =
     (let prefix_upper = str_upper (refdes_prefix [] (refdes c)) in
      if prefix_upper = code_points ''R'' then ''RES''
      else if prefix_upper = code_points ''C'' then ''CAP''
      else if prefix_upper \<in> {code_points ''L'', code_points ''FB''} then ''IND''
      else if prefix_upper = code_points ''F'' then ''FUSE''
      else if prefix_upper \<in> {code_points ''D'', code_points ''LED''} then ''DIODE''
      else if prefix_upper = code_points ''Q'' then ''TRANSISTOR''
      else if prefix_upper = code_points ''U'' then ''IC''
      else if prefix_upper \<in> {code_points ''J'', code_points ''P'', code_points ''CN'',
                               code_points ''CONN''} then ''CONN''
      else if prefix_upper = code_points ''SW'' then ''SWITCH''
      else if prefix_upper \<in> {code_points ''X'', code_points ''Y''} then ''OSC''
      else ''ACTIVE'')"

subsection \<open>Component.is_complex\<close>

definition simple_names_complex :: "string set" where
  "simple_names_complex = {''1'', ''2'', ''3'', ''4'', ''A'', ''K'', ''''}"

definition is_complex :: "component \<Rightarrow> bool" where
  "is_complex c =
     (if length (pins c) > 4 then True
      else if \<exists>p \<in> set (pins c). pin_name p \<noteq> [] \<and> pin_name p \<notin> simple_names_complex
      then True
      else False)"

subsection \<open>Component.is_passive\<close>

definition passive_types :: "string set" where
  "passive_types = {''RES'', ''CAP'', ''IND'', ''FUSE''}"

definition is_passive :: "component \<Rightarrow> bool" where
  "is_passive c = (derived_type c \<in> passive_types)"

subsection \<open>Net.is_global\<close>

text \<open>
  The regular expression of \<open>is_global\<close> is written with combinators. A matcher maps a
  string to the list of remainders left after each way of matching a prefix of it, so
  that sequencing, alternation and backtracking are those of the regular-expression
  engine, and \<open>re.match\<close> succeeds when at least one remainder exists. The pattern is
  compiled with \<open>re.IGNORECASE\<close>: a literal matches in either case. \<open>.\<close> matches every
  character but the line feed, \<open>$\<close> matches at the end of the string and before a final
  line feed, and \<open>^\<close> holds where \<open>re.match\<close> starts, which is where each of the three
  alternatives has it.
\<close>

type_synonym matcher = "string \<Rightarrow> string list"

definition newline :: char where
  "newline = CHR 0x0A"

definition re_lit :: "string \<Rightarrow> matcher" where
  "re_lit w s = (if upper (take (length w) s) = upper w then [drop (length w) s] else [])"

definition re_seq :: "matcher \<Rightarrow> matcher \<Rightarrow> matcher" where
  "re_seq a b s = concat (map b (a s))"

definition re_alt :: "matcher \<Rightarrow> matcher \<Rightarrow> matcher" where
  "re_alt a b s = a s @ b s"

definition re_opt :: "matcher \<Rightarrow> matcher" where
  "re_opt a s = a s @ [s]"

definition re_digit_star :: matcher where
  "re_digit_star s = map (\<lambda>i. drop i s) (rev [0..<Suc (length (takeWhile isdigit s))])"

definition re_digit_plus :: matcher where
  "re_digit_plus s = map (\<lambda>i. drop i s) (rev [1..<Suc (length (takeWhile isdigit s))])"

definition re_dot_star :: matcher where
  "re_dot_star s =
     map (\<lambda>i. drop i s) (rev [0..<Suc (length (takeWhile (\<lambda>c. c \<noteq> newline) s))])"

definition re_eol :: matcher where
  "re_eol s = (if s = [] \<or> s = [newline] then [s] else [])"

definition re_match :: "matcher \<Rightarrow> string \<Rightarrow> bool" where
  "re_match m s = (m s \<noteq> [])"

text \<open>
  \<^verbatim>\<open>^(P?GND|VSS|VCC|VDD|VEE|VBAT)($|_.*)\<close>, then
  \<^verbatim>\<open>^(\+?(\d+\.?\d*V\d*|\d*\.?\d*V\d+)|\+?(\d+V))\<close>, then
  \<^verbatim>\<open>^.*_(GND|VCC|VDD)$\<close>.
\<close>

definition power_pattern :: matcher where
  "power_pattern =
     re_alt
       (re_seq
          (re_alt (re_seq (re_opt (re_lit ''P'')) (re_lit ''GND''))
          (re_alt (re_lit ''VSS'')
          (re_alt (re_lit ''VCC'')
          (re_alt (re_lit ''VDD'')
          (re_alt (re_lit ''VEE'') (re_lit ''VBAT''))))))
          (re_alt re_eol (re_seq (re_lit ''_'') re_dot_star)))
     (re_alt
       (re_alt
          (re_seq (re_opt (re_lit ''+''))
             (re_alt
                (re_seq re_digit_plus (re_seq (re_opt (re_lit ''.''))
                   (re_seq re_digit_star (re_seq (re_lit ''V'') re_digit_star))))
                (re_seq re_digit_star (re_seq (re_opt (re_lit ''.''))
                   (re_seq re_digit_star (re_seq (re_lit ''V'') re_digit_plus))))))
          (re_seq (re_opt (re_lit ''+'')) (re_seq re_digit_plus (re_lit ''V''))))
       (re_seq re_dot_star (re_seq (re_lit ''_'')
          (re_seq (re_alt (re_lit ''GND'') (re_alt (re_lit ''VCC'') (re_lit ''VDD'')))
             re_eol))))"

definition is_global :: "net \<Rightarrow> bool" where
  "is_global n =
     (if re_match power_pattern (net_name n) then True
      else if length (members n) > 15 then True
      else if card (pages n) > 3 then True
      else False)"

definition is_inter_page :: "net \<Rightarrow> bool" where
  "is_inter_page n = (card (pages n) > 1)"

section \<open>DSL emitter (dsl_emitter.py)\<close>

text \<open>
  \<open>sorted(xs, key=f)\<close> and \<open>list.sort()\<close> are stable sorts. Where the keys are strings
  they are \<^const>\<open>sort_key\<close> and \<^const>\<open>sort\<close>, the stable insertion sort on the string order.
\<close>

text \<open>\<open>str(n)\<close> for a count \<open>n\<close>, in decimal.\<close>

function str_nat :: "nat \<Rightarrow> string" where
  "str_nat n = (if n < 10 then [digits ! n] else str_nat (n div 10) @ [digits ! (n mod 10)])"
  by pat_completeness auto
termination
  by (relation "measure (\<lambda>n. n)") auto

declare str_nat.simps [simp del]

subsection \<open>Natural sort key\<close>

text \<open>
  \<open>re.split(r'(\d+)', text)\<close>: the text cut at its maximal runs of digits, the runs kept.
  The result alternates pieces without a digit (possibly empty) and runs of digits,
  and begins and ends with a piece without a digit.
\<close>

function re_split_digits :: "string \<Rightarrow> string list" where
  "re_split_digits s =
     (if dropWhile (\<lambda>c. \<not> isdigit c) s = [] then [takeWhile (\<lambda>c. \<not> isdigit c) s]
      else takeWhile (\<lambda>c. \<not> isdigit c) s
           # takeWhile isdigit (dropWhile (\<lambda>c. \<not> isdigit c) s)
           # re_split_digits (dropWhile isdigit (dropWhile (\<lambda>c. \<not> isdigit c) s)))"
  by pat_completeness auto
termination
proof (relation "measure length")
  show "wf (measure length)" by simp
next
  fix s :: string
  assume ne: "dropWhile (\<lambda>c. \<not> isdigit c) s \<noteq> []"
  then obtain d r where dr: "dropWhile (\<lambda>c. \<not> isdigit c) s = d # r"
    by (cases "dropWhile (\<lambda>c. \<not> isdigit c) s") auto
  from ne have "\<not> \<not> isdigit (hd (dropWhile (\<lambda>c. \<not> isdigit c) s))"
    by (rule hd_dropWhile)
  with dr have "isdigit d" by simp
  then have "length (dropWhile isdigit (d # r)) \<le> length r"
    by (simp add: length_dropWhile_le)
  also have "length r < length (dropWhile (\<lambda>c. \<not> isdigit c) s)"
    by (simp add: dr)
  also have "\<dots> \<le> length s" by (rule length_dropWhile_le)
  finally show "(dropWhile isdigit (dropWhile (\<lambda>c. \<not> isdigit c) s), s) \<in> measure length"
    by (simp add: dr)
qed

declare re_split_digits.simps [simp del]

text \<open>
  The parts of a key: \<open>atoi\<close> is \<open>int(text) if text.isdigit() else text\<close>. Of a text that
  passed \<open>str.isdigit\<close>, \<open>int\<close> takes the value in base ten when the text is made of the
  digits \<open>0..9\<close> alone and raises \<open>ValueError\<close> otherwise, as it does for a text of more than
  4300 digits (the limit CPython sets by default on the conversion).
\<close>

datatype key_part = KStr string | KInt int

datatype error = TypeError | ValueError | ProviderError string

definition max_str_digits :: nat where
  "max_str_digits = 4300"

definition int_of_digits :: "string \<Rightarrow> int" where
  "int_of_digits s = foldl (\<lambda>acc c. 10 * acc + (int (of_char c) - 48)) 0 s"

definition py_int :: "string \<Rightarrow> error + int" where
  "py_int text =
     (if text \<noteq> [] \<and> list_all isdigit text \<and> length text \<le> max_str_digits
      then Inr (int_of_digits text) else Inl ValueError)"

definition atoi :: "string \<Rightarrow> error + key_part" where
  "atoi text =
     (if str_isdigit text
      then (case py_int text of Inl e \<Rightarrow> Inl e | Inr n \<Rightarrow> Inr (KInt n))
      else Inr (KStr text))"

text \<open>The results of a loop in order; the first exception ends it.\<close>

fun collect :: "(error + 'a) list \<Rightarrow> error + 'a list" where
  "collect [] = Inr []"
| "collect (Inl e # rs) = Inl e"
| "collect (Inr x # rs) = (case collect rs of Inl e \<Rightarrow> Inl e | Inr xs \<Rightarrow> Inr (x # xs))"

definition natural_sort_key :: "string \<Rightarrow> error + key_part list" where
  "natural_sort_key text = collect (map atoi (re_split_digits text))"

text \<open>
  Python compares the key tuples item by item: the first pair of unequal items decides
  by \<open><\<close>, which raises \<open>TypeError\<close> between an \<open>int\<close> and a \<open>str\<close>; when one tuple is a
  prefix of the other, the shorter one is smaller.
\<close>

fun part_lt :: "key_part \<Rightarrow> key_part \<Rightarrow> error + bool" where
  "part_lt (KStr a) (KStr b) = Inr (a < b)"
| "part_lt (KInt a) (KInt b) = Inr (a < b)"
| "part_lt (KStr a) (KInt b) = Inl TypeError"
| "part_lt (KInt a) (KStr b) = Inl TypeError"

fun tuple_lt :: "key_part list \<Rightarrow> key_part list \<Rightarrow> error + bool" where
  "tuple_lt [] [] = Inr False"
| "tuple_lt [] (y # ys) = Inr True"
| "tuple_lt (x # xs) [] = Inr False"
| "tuple_lt (x # xs) (y # ys) = (if x = y then tuple_lt xs ys else part_lt x y)"

text \<open>
  \<open>sorted(xs, key=k)\<close> first computes the key of every element, in order, and then sorts
  the elements by their keys, stably: an element moves in front of a later one only
  where the later one's key is smaller. The keys of \<open>natural_sort_key\<close> never raise in a
  comparison (shown below), so the comparison is taken as the truth value.
\<close>

definition natural_lt :: "key_part list \<Rightarrow> key_part list \<Rightarrow> bool" where
  "natural_lt a b = (tuple_lt a b = Inr True)"

fun insort_lt :: "('k \<Rightarrow> 'k \<Rightarrow> bool) \<Rightarrow> ('a \<Rightarrow> 'k) \<Rightarrow> 'a \<Rightarrow> 'a list \<Rightarrow> 'a list" where
  "insort_lt lt key x [] = [x]"
| "insort_lt lt key x (y # ys) =
     (if lt (key y) (key x) then y # insort_lt lt key x ys else x # y # ys)"

definition sorted_lt :: "('k \<Rightarrow> 'k \<Rightarrow> bool) \<Rightarrow> ('a \<Rightarrow> 'k) \<Rightarrow> 'a list \<Rightarrow> 'a list" where
  "sorted_lt lt key xs = foldr (insort_lt lt key) xs []"

definition natural_sorted :: "('a \<Rightarrow> string) \<Rightarrow> 'a list \<Rightarrow> error + 'a list" where
  "natural_sorted f xs =
     (case collect (map (\<lambda>x. natural_sort_key (f x)) xs) of
        Inl e \<Rightarrow> Inl e
      | Inr keys \<Rightarrow> Inr (map snd (sorted_lt natural_lt fst (zip keys xs))))"

subsection \<open>Component block\<close>

definition component_block_lines :: "component \<Rightarrow> error + string list" where
  "component_block_lines c =
     (case (if pins c \<noteq> [] then natural_sorted designator (pins c) else Inr []) of
        Inl e \<Rightarrow> Inl e
      | Inr sorted_pins \<Rightarrow>
          Inr ([if description c \<noteq> [] then ''DEF '' @ derived_type c @ '' '' @ description c
                else ''DEF '' @ derived_type c]
               @ [''COMP '' @ refdes c @ '' ('' @ comp_value c @ '')'']
               @ (if mpn c \<noteq> [] then [''  MPN: '' @ mpn c] else [])
               @ (if footprint c \<noteq> [] then [''  FP: '' @ footprint c] else [])
               @ (if pins c \<noteq> [] then
                    ''  PINS:''
                    # map (\<lambda>p. if pin_name p \<noteq> []
                                then ''    '' @ designator p @ '': '' @ pin_name p
                                else ''    '' @ designator p @ '':'')
                        sorted_pins
                  else [])))"

definition format_component_block :: "component \<Rightarrow> error + string" where
  "format_component_block c =
     (case component_block_lines c of
        Inl e \<Rightarrow> Inl e
      | Inr block_lines \<Rightarrow> Inr (join [newline] block_lines))"

subsection \<open>Pin reference\<close>

text \<open>The two search loops, each leaving at the first hit.\<close>

fun find_component :: "string \<Rightarrow> component list \<Rightarrow> component option" where
  "find_component r [] = None"
| "find_component r (c # comps) = (if refdes c = r then Some c else find_component r comps)"

fun find_pin :: "string \<Rightarrow> pin list \<Rightarrow> pin option" where
  "find_pin d [] = None"
| "find_pin d (p # ps) = (if designator p = d then Some p else find_pin d ps)"

definition simple_names :: "string set" where
  "simple_names = {''1'', ''2'', ''3'', ''4'', ''A'', ''K''}"

definition format_pin_reference :: "string \<Rightarrow> string \<Rightarrow> component list \<Rightarrow> string" where
  "format_pin_reference r pin_designator comps =
     (case find_component r comps of
        None \<Rightarrow> r @ ''.'' @ pin_designator
      | Some component \<Rightarrow>
          (case find_pin pin_designator (pins component) of
             None \<Rightarrow> r @ ''.'' @ pin_designator
           | Some p \<Rightarrow>
               if pin_name p = [] then r @ ''.'' @ pin_designator
               else if pin_name p \<in> simple_names then r @ ''.'' @ pin_designator
               else r @ ''.'' @ pin_designator @ ''('' @ pin_name p @ '')''))"

subsection \<open>Net block\<close>

definition pin_refs :: "net \<Rightarrow> component list \<Rightarrow> string list" where
  "pin_refs n comps =
     sort (map (\<lambda>(r, pin_designator). format_pin_reference r pin_designator comps) (members n))"

definition con_str :: "net \<Rightarrow> component list \<Rightarrow> string" where
  "con_str n comps =
     (if is_global n \<and> length (pin_refs n comps) > 10
      then join '', '' (take 10 (pin_refs n comps))
           @ '' (+ '' @ str_nat (length (pin_refs n comps) - 10) @ '' others)''
      else join '', '' (pin_refs n comps))"

definition net_block_lines :: "net \<Rightarrow> string set \<Rightarrow> component list \<Rightarrow> string list" where
  "net_block_lines n net_pages comps =
     [''NET '' @ net_name n]
     @ (if is_global n then [''  LINKS: ALL_PAGES'']
        else if card net_pages > 1
        then [''  LINKS: '' @ join '', '' (sorted_list_of_set net_pages)]
        else [])
     @ [''  CON: '' @ con_str n comps]"

definition format_net_block :: "net \<Rightarrow> string set \<Rightarrow> component list \<Rightarrow> string" where
  "format_net_block n net_pages comps = join [newline] (net_block_lines n net_pages comps)"

subsection \<open>Neighbor summary\<close>

definition format_neighbor_summary :: "component \<Rightarrow> string" where
  "format_neighbor_summary c =
     (if description c \<noteq> []
      then refdes c @ '' ('' @ comp_value c @ '') - '' @ description c
      else refdes c @ '' ('' @ comp_value c @ '')'')"

subsection \<open>Page and context\<close>

definition no_components_text :: string where
  "no_components_text = ''# No components on this page'' @ [newline]"

definition emit_page_dsl ::
  "component list \<Rightarrow> net list \<Rightarrow> (string \<rightharpoonup> string set) \<Rightarrow> error + string" where
  "emit_page_dsl comps nets_on_page net_page_map =
     (case comps of
        [] \<Rightarrow> Inr no_components_text
      | first # _ \<Rightarrow>
          (let page_name = page first;
               sorted_components = sort_key refdes comps;
               sorted_nets = sort_key net_name nets_on_page;
               complex_components = filter is_complex sorted_components
           in case (if complex_components = []
                    then Inr [''(All components are simple passives - see NETS section)'']
                    else collect (map format_component_block complex_components)) of
                Inl e \<Rightarrow> Inl e
              | Inr blocks \<Rightarrow>
                  Inr (join [newline]
                         ([''# PAGE: '' @ page_name, '''', ''# COMPONENTS'']
                          @ blocks
                          @ ['''', ''# NETS'']
                          @ map (\<lambda>n. format_net_block n
                                         (case net_page_map (net_name n) of
                                            None \<Rightarrow> {} | Some ps \<Rightarrow> ps)
                                         sorted_components)
                                sorted_nets))))"

definition emit_context_dsl ::
  "component list \<Rightarrow> component list \<Rightarrow> net list \<Rightarrow> error + string" where
  "emit_context_dsl primary neighbors context =
     (if primary = [] then Inr (''# No components in context'' @ [newline])
      else
        (let sorted_primary = sort_key refdes primary;
             sorted_neighbors = sort_key refdes neighbors;
             sorted_nets = sort_key net_name context
         in case collect (map format_component_block (filter is_complex sorted_primary)) of
              Inl e \<Rightarrow> Inl e
            | Inr blocks \<Rightarrow>
                Inr (join [newline]
                       ([''# CONTEXT: '' @ join '', '' (map refdes sorted_primary), '''',
                         ''# COMPONENTS'']
                        @ blocks
                        @ ['''']
                        @ (if sorted_neighbors \<noteq> []
                           then ''# CONTEXT_NEIGHBORS''
                                # map format_neighbor_summary sorted_neighbors @ ['''']
                           else [])
                        @ [''# NETS'']
                        @ map (\<lambda>n. format_net_block n (pages n)
                                       (sorted_primary @ sorted_neighbors))
                              sorted_nets))))"

section \<open>Librarian (librarian.py)\<close>

text \<open>
  A \<open>SchematicProvider\<close> is an object with a state of its own, of type \<open>'p\<close>, and three
  methods. Each method returns its result or the exception it raises, together with the
  provider's state afterwards. The lists it hands out are values.
\<close>

record 'p schematic_provider =
  fetch_raw_data :: "'p \<Rightarrow> (error + unit) \<times> 'p"
  get_components :: "'p \<Rightarrow> (error + component list) \<times> 'p"
  get_nets :: "'p \<Rightarrow> (error + net list) \<times> 'p"

record 'p librarian =
  provider :: 'p
  dirty :: bool
  components :: "component list"
  nets :: "net list"
  net_page_map :: "string \<rightharpoonup> string set"

definition new_librarian :: "'p \<Rightarrow> 'p librarian" where
  "new_librarian p =
     \<lparr>provider = p, dirty = True, components = [], nets = [], net_page_map = Map.empty\<rparr>"

text \<open>The loop \<open>for net in self.nets: self.net_page_map[net.name] = net.pages\<close>.\<close>

fun build_atlas :: "net list \<Rightarrow> (string \<rightharpoonup> string set) \<Rightarrow> (string \<rightharpoonup> string set)" where
  "build_atlas [] m = m"
| "build_atlas (n # ns) m = build_atlas ns (m(net_name n \<mapsto> pages n))"

definition refresh :: "'p schematic_provider \<Rightarrow> 'p librarian \<Rightarrow> (error + unit) \<times> 'p librarian" where
  "refresh ops L =
     (if \<not> dirty L then (Inr (), L)
      else
        (case fetch_raw_data ops (provider L) of
           (Inl e, p1) \<Rightarrow> (Inl e, L\<lparr>provider := p1\<rparr>)
         | (Inr _, p1) \<Rightarrow>
             (case get_components ops p1 of
                (Inl e, p2) \<Rightarrow> (Inl e, L\<lparr>provider := p2\<rparr>)
              | (Inr cs, p2) \<Rightarrow>
                  (case get_nets ops p2 of
                     (Inl e, p3) \<Rightarrow> (Inl e, L\<lparr>provider := p3, components := cs\<rparr>)
                   | (Inr ns, p3) \<Rightarrow>
                       (Inr (), L\<lparr>provider := p3, components := cs, nets := ns,
                                  net_page_map := build_atlas ns Map.empty,
                                  dirty := False\<rparr>)))))"

definition mark_dirty :: "'p librarian \<Rightarrow> 'p librarian" where
  "mark_dirty L = L\<lparr>dirty := True\<rparr>"

subsection \<open>get_page\<close>

definition page_not_found_text :: "string \<Rightarrow> string" where
  "page_not_found_text page_name =
     ''# PAGE: '' @ page_name @ [newline, newline] @ ''(Page not found in schematic)'' @ [newline]"

definition page_components :: "'p librarian \<Rightarrow> string \<Rightarrow> component list" where
  "page_components L page_name = filter (\<lambda>c. page c = page_name) (components L)"

definition page_nets :: "'p librarian \<Rightarrow> string \<Rightarrow> net list" where
  "page_nets L page_name =
     filter (\<lambda>n. \<exists>(r, pin_designator) \<in> set (members n).
                   r \<in> set (map refdes (page_components L page_name)))
            (nets L)"

text \<open>The body of \<open>get_page\<close> after its \<open>self.refresh()\<close>.\<close>

definition get_page_text :: "'p librarian \<Rightarrow> string \<Rightarrow> error + string" where
  "get_page_text L page_name =
     (if page_components L page_name = []
      then (if \<not> (\<exists>n \<in> set (nets L). page_name \<in> pages n)
            then Inr (page_not_found_text page_name)
            else emit_page_dsl [] (page_nets L page_name) (net_page_map L))
      else emit_page_dsl (page_components L page_name) (page_nets L page_name)
             (net_page_map L))"

definition get_page ::
  "'p schematic_provider \<Rightarrow> 'p librarian \<Rightarrow> string \<Rightarrow> (error + string) \<times> 'p librarian" where
  "get_page ops L page_name =
     (case refresh ops L of
        (Inl e, L') \<Rightarrow> (Inl e, L')
      | (Inr _, L') \<Rightarrow> (get_page_text L' page_name, L'))"

subsection \<open>get_context: what it reads\<close>

definition primary_components :: "'p librarian \<Rightarrow> string list \<Rightarrow> component list" where
  "primary_components L refdes_list = filter (\<lambda>c. refdes c \<in> set refdes_list) (components L)"

definition primary_refdes_set :: "'p librarian \<Rightarrow> string list \<Rightarrow> string set" where
  "primary_refdes_set L refdes_list = set (map refdes (primary_components L refdes_list))"

definition connected_nets :: "'p librarian \<Rightarrow> string list \<Rightarrow> net list" where
  "connected_nets L refdes_list =
     filter (\<lambda>n. \<exists>(r, pin_designator) \<in> set (members n). r \<in> primary_refdes_set L refdes_list)
            (nets L)"

definition neighbor_refdes_set :: "'p librarian \<Rightarrow> string list \<Rightarrow> string set" where
  "neighbor_refdes_set L refdes_list =
     set (filter (\<lambda>r. r \<notin> primary_refdes_set L refdes_list)
            (map fst (concat (map members (connected_nets L refdes_list)))))"

definition neighbor_components :: "'p librarian \<Rightarrow> string list \<Rightarrow> component list" where
  "neighbor_components L refdes_list =
     filter (\<lambda>c. \<not> is_passive c)
       (filter (\<lambda>c. refdes c \<in> neighbor_refdes_set L refdes_list) (components L))"

definition context_refdes :: "'p librarian \<Rightarrow> string list \<Rightarrow> string set" where
  "context_refdes L refdes_list =
     primary_refdes_set L refdes_list \<union> neighbor_refdes_set L refdes_list"

subsection \<open>get_context over Net objects\<close>

text \<open>
  \<open>get_context\<close> makes new \<open>Net\<close> objects beside the cached ones, so here a \<open>Net\<close> is an
  object with an identity. The \<open>Net\<close> objects made so far stand in a table, a reference
  to one is its index, making an object appends it to the table, and \<open>self.nets\<close> is a
  list of references. The other attributes are as before.
\<close>

type_synonym net_ref = nat

record 'p librarian_objects =
  provider_o :: 'p
  dirty_o :: bool
  components_o :: "component list"
  nets_o :: "net_ref list"
  net_page_map_o :: "string \<rightharpoonup> string set"
  net_objects :: "net list"

definition new_librarian_objects :: "'p \<Rightarrow> 'p librarian_objects" where
  "new_librarian_objects p =
     \<lparr>provider_o = p, dirty_o = True, components_o = [], nets_o = [],
      net_page_map_o = Map.empty, net_objects = []\<rparr>"

text \<open>The Librarian with its nets read through the references.\<close>

definition cached :: "'p librarian_objects \<Rightarrow> 'p librarian" where
  "cached S =
     \<lparr>provider = provider_o S, dirty = dirty_o S, components = components_o S,
      nets = map (\<lambda>a. net_objects S ! a) (nets_o S), net_page_map = net_page_map_o S\<rparr>"

text \<open>A Librarian refers to objects of its table only.\<close>

definition refs_valid :: "'p librarian_objects \<Rightarrow> bool" where
  "refs_valid S = list_all (\<lambda>a. a < length (net_objects S)) (nets_o S)"

text \<open>\<open>refresh\<close>, the nets handed out by the provider being new objects.\<close>

definition refresh_objects ::
  "'p schematic_provider \<Rightarrow> 'p librarian_objects \<Rightarrow> (error + unit) \<times> 'p librarian_objects"
  where
  "refresh_objects ops S =
     (if \<not> dirty_o S then (Inr (), S)
      else
        (case fetch_raw_data ops (provider_o S) of
           (Inl e, p1) \<Rightarrow> (Inl e, S\<lparr>provider_o := p1\<rparr>)
         | (Inr _, p1) \<Rightarrow>
             (case get_components ops p1 of
                (Inl e, p2) \<Rightarrow> (Inl e, S\<lparr>provider_o := p2\<rparr>)
              | (Inr cs, p2) \<Rightarrow>
                  (case get_nets ops p2 of
                     (Inl e, p3) \<Rightarrow> (Inl e, S\<lparr>provider_o := p3, components_o := cs\<rparr>)
                   | (Inr ns, p3) \<Rightarrow>
                       (Inr (), S\<lparr>provider_o := p3, components_o := cs,
                                  nets_o := [length (net_objects S)..<
                                             length (net_objects S) + length ns],
                                  net_objects := net_objects S @ ns,
                                  net_page_map_o := build_atlas ns Map.empty,
                                  dirty_o := False\<rparr>)))))"

definition mark_dirty_objects :: "'p librarian_objects \<Rightarrow> 'p librarian_objects" where
  "mark_dirty_objects S = S\<lparr>dirty_o := True\<rparr>"

text \<open>The references of the cached nets that have a member on a primary component.\<close>

definition connected_net_refs :: "'p librarian_objects \<Rightarrow> string list \<Rightarrow> net_ref list" where
  "connected_net_refs S refdes_list =
     filter (\<lambda>a. \<exists>(r, pin_designator) \<in> set (members (net_objects S ! a)).
                   r \<in> primary_refdes_set (cached S) refdes_list)
            (nets_o S)"

text \<open>
  The loop over the connected nets: each turn reads a cached \<open>Net\<close> through its reference,
  filters its members into a new list and makes a new \<open>Net\<close> of the same name and pages.
  It returns the table and the references of the new objects.
\<close>

fun build_context_nets ::
  "string set \<Rightarrow> net list \<Rightarrow> net_ref list \<Rightarrow> net list \<times> net_ref list" where
  "build_context_nets ctx objs [] = (objs, [])"
| "build_context_nets ctx objs (a # refs) =
     (let n = objs ! a;
          filtered_members = filter (\<lambda>(r, pin_designator). r \<in> ctx) (members n);
          context_net = \<lparr>net_name = net_name n, pages = pages n, members = filtered_members\<rparr>;
          (objs', context_refs) = build_context_nets ctx (objs @ [context_net]) refs
      in (objs', length objs # context_refs))"

definition context_net_objects ::
  "'p librarian_objects \<Rightarrow> string list \<Rightarrow> net list \<times> net_ref list" where
  "context_net_objects S refdes_list =
     build_context_nets (context_refdes (cached S) refdes_list) (net_objects S)
       (connected_net_refs S refdes_list)"

definition get_context ::
  "'p schematic_provider \<Rightarrow> 'p librarian_objects \<Rightarrow> string list
     \<Rightarrow> (error + string) \<times> 'p librarian_objects" where
  "get_context ops S refdes_list =
     (case refresh_objects ops S of
        (Inl e, S') \<Rightarrow> (Inl e, S')
      | (Inr _, S') \<Rightarrow>
          if refdes_list = []
          then (Inr (''# CONTEXT: (empty)'' @ [newline, newline]
                     @ ''(No components specified for context)'' @ [newline]), S')
          else if primary_components (cached S') refdes_list = []
          then (Inr (''# CONTEXT: '' @ join '', '' refdes_list @ [newline, newline]
                     @ ''(Components not found in schematic)'' @ [newline]), S')
          else
            (case context_net_objects S' refdes_list of
               (objs', context_refs) \<Rightarrow>
                 (emit_context_dsl (primary_components (cached S') refdes_list)
                    (neighbor_components (cached S') refdes_list)
                    (map (\<lambda>a. objs' ! a) context_refs),
                  S'\<lparr>net_objects := objs'\<rparr>)))"

subsection \<open>A provider that records its calls\<close>

text \<open>
  As the mock provider of the test suite counts its fetches, a provider can be wrapped so
  that every call of one of its methods is appended to a log kept beside its state.
\<close>

datatype provider_call = FetchRawData | GetComponents | GetNets

definition logged :: "'p schematic_provider \<Rightarrow> ('p \<times> provider_call list) schematic_provider" where
  "logged ops =
     \<lparr>fetch_raw_data = (\<lambda>(p, log). case fetch_raw_data ops p of
                                        (r, p') \<Rightarrow> (r, (p', log @ [FetchRawData]))),
      get_components = (\<lambda>(p, log). case get_components ops p of
                                        (r, p') \<Rightarrow> (r, (p', log @ [GetComponents]))),
      get_nets = (\<lambda>(p, log). case get_nets ops p of
                                  (r, p') \<Rightarrow> (r, (p', log @ [GetNets])))\<rparr>"

definition call_log :: "('p \<times> provider_call list) librarian \<Rightarrow> provider_call list" where
  "call_log L = snd (provider L)"

definition fetch_count :: "('p \<times> provider_call list) librarian \<Rightarrow> nat" where
  "fetch_count L = count_list (call_log L) FetchRawData"

section \<open>Runs, values and order of natural sort keys\<close>


text \<open>
  The number a run of digits denotes in base ten: the digit at place \<open>i\<close> from the right
  counts \<open>10 ^ i\<close> times.
\<close>

definition decimal_value :: "string \<Rightarrow> int" where
  "decimal_value s = (\<Sum>i<length s. (int (of_char (rev s ! i)) - 48) * 10 ^ i)"

text \<open>
  The key a designator should get: its pieces in order, a run of digits as the number it
  denotes and any other piece as it is.
\<close>

definition piece_key :: "string \<Rightarrow> key_part" where
  "piece_key piece =
     (if piece \<noteq> [] \<and> list_all isdigit piece then KInt (decimal_value piece) else KStr piece)"

definition key_of :: "string \<Rightarrow> key_part list" where
  "key_of t = map piece_key (re_split_digits t)"




section \<open>Views of nets\<close>

text \<open>
  The view of a net for a set of reference designators: a net of the same name and pages
  whose members are the members of the net on those reference designators, in order.
\<close>

definition context_view :: "string set \<Rightarrow> net \<Rightarrow> net" where
  "context_view ctx n =
     \<lparr>net_name = net_name n, pages = pages n,
      members = filter (\<lambda>(r, pin_designator). r \<in> ctx) (members n)\<rparr>"

section \<open>Example data\<close>

text \<open>A ground net with 27 members, pin 1 of the resistors R1 to R27, on one page.\<close>

definition gnd27 :: net where
  "gnd27 = \<lparr>net_name = ''GND'', pages = {''Main''},
     members = map (\<lambda>i. (''R'' @ str_nat i, ''1'')) [1..<28]\<rparr>"


text \<open>An IC with a named pin and a pin named by its number.\<close>

definition demo_u1 :: component where
  "demo_u1 = \<lparr>refdes = ''U1'', comp_value = ''STM32'', footprint = ''LQFP-100'', mpn = [],
          page = ''Main'', description = ''MCU'',
          pins = [\<lparr>designator = ''22'', pin_name = ''PA9_TX'', pin_net = ''UART_TX''\<rparr>,
                  \<lparr>designator = ''1'', pin_name = ''1'', pin_net = ''GND''\<rparr>],
          location = (0, 0), properties = [], multipart_parent = None\<rparr>"

text \<open>A resistor, and a net that also lists a page on which no component sits.\<close>

definition demo_r1 :: component where
  "demo_r1 = \<lparr>refdes = ''R1'', comp_value = ''10k'', footprint = ''0805'', mpn = [],
          page = ''Main'', description = [], pins = [],
          location = (0, 0), properties = [], multipart_parent = None\<rparr>"

definition uart_tx :: net where
  "uart_tx = \<lparr>net_name = ''UART_TX'', pages = {''Main'', ''Power''},
               members = [(''U1'', ''22'')]\<rparr>"

text \<open>
  A provider whose state counts its fetches. Its first fetch yields one component and one
  net; from the second fetch on it yields two components and fails to build the nets.
\<close>

definition demo_provider :: "nat schematic_provider" where
  "demo_provider =
     \<lparr>fetch_raw_data = (\<lambda>k. (Inr (), Suc k)),
      get_components = (\<lambda>k. (Inr (if k \<le> 1 then [demo_u1] else [demo_u1, demo_r1]), k)),
      get_nets = (\<lambda>k. (if 2 \<le> k then Inl (ProviderError ''malformed net'') else Inr [uart_tx], k))\<rparr>"

text \<open>The Librarian after its first refresh, and the same marked stale.\<close>

definition demo_cached :: "nat librarian" where
  "demo_cached = snd (refresh demo_provider (new_librarian 0))"

definition demo_stale :: "nat librarian" where
  "demo_stale = mark_dirty demo_cached"

text \<open>The same with the calls of the provider recorded.\<close>

definition logged_cached :: "(nat \<times> provider_call list) librarian" where
  "logged_cached = snd (refresh (logged demo_provider) (new_librarian (0, [])))"

text \<open>A provider whose source cannot be read.\<close>

definition offline_provider :: "nat schematic_provider" where
  "offline_provider =
     \<lparr>fetch_raw_data = (\<lambda>k. (Inl (ProviderError ''file not found''), k)),
      get_components = (\<lambda>k. (Inl (ProviderError ''no data''), k)),
      get_nets = (\<lambda>k. (Inl (ProviderError ''no data''), k))\<rparr>"

text \<open>
  A provider whose net gains a member between the first fetch and the second, the
  Librarian over it after its first refresh, and the same marked stale.
\<close>

definition uart_tx_rewired :: net where
  "uart_tx_rewired = \<lparr>net_name = ''UART_TX'', pages = {''Main'', ''Power''},
                       members = [(''U1'', ''22''), (''R1'', ''1'')]\<rparr>"

definition rewiring_provider :: "nat schematic_provider" where
  "rewiring_provider =
     \<lparr>fetch_raw_data = (\<lambda>k. (Inr (), Suc k)),
      get_components = (\<lambda>k. (Inr [demo_u1, demo_r1], k)),
      get_nets = (\<lambda>k. (Inr (if k \<le> 1 then [uart_tx] else [uart_tx_rewired]), k))\<rparr>"

definition rewiring_cached :: "nat librarian_objects" where
  "rewiring_cached = snd (refresh_objects rewiring_provider (new_librarian_objects 0))"

definition rewiring_stale :: "nat librarian_objects" where
  "rewiring_stale = mark_dirty_objects rewiring_cached"

section \<open>Net names of the power and ground convention\<close>

text \<open>
  The names the specification calls power or ground names, read as it words them: one of
  the six rail names followed by any suffix, one of the voltage rails it lists, or a name
  ending in \<open>_GND\<close>, \<open>_VCC\<close> or \<open>_VDD\<close>.
\<close>

definition rail_names :: "string list" where
  "rail_names = [''GND'', ''VSS'', ''VCC'', ''VDD'', ''VEE'', ''VBAT'']"

text \<open>
  The names the pattern of \<open>is_global\<close> is shown to accept: a rail name alone or followed
  by an underscore and anything; an optional plus sign, then digits, an optional point,
  digits and a \<open>V\<close>, with a digit before the point or directly after the \<open>V\<close>; or a name
  ending in an underscore and \<open>GND\<close>, \<open>VCC\<close> or \<open>VDD\<close> with no line feed before it.
  Letters are compared without regard to case.
\<close>

definition rail_prefixed :: "string \<Rightarrow> bool" where
  "rail_prefixed name \<longleftrightarrow>
     (\<exists>pre suffix. name = pre @ suffix \<and> upper pre \<in> set rail_names
        \<and> (suffix = [] \<or> (\<exists>t. suffix = CHR ''_'' # t)))"

definition voltage_rail :: "string \<Rightarrow> bool" where
  "voltage_rail name \<longleftrightarrow>
     (\<exists>sign d1 dot d2 v rest. name = sign @ d1 @ dot @ d2 @ v # rest
        \<and> sign \<in> {[], ''+''} \<and> dot \<in> {[], ''.''}
        \<and> list_all isdigit d1 \<and> list_all isdigit d2 \<and> upper_char v = CHR ''V''
        \<and> (d1 \<noteq> [] \<or> (\<exists>d t. rest = d # t \<and> isdigit d)))"

definition rail_suffixed :: "string \<Rightarrow> bool" where
  "rail_suffixed name \<longleftrightarrow>
     (\<exists>xs w. name = xs @ CHR ''_'' # w \<and> newline \<notin> set xs
        \<and> upper w \<in> {''GND'', ''VCC'', ''VDD''})"

definition power_ground_name :: "string \<Rightarrow> bool" where
  "power_ground_name name \<longleftrightarrow> rail_prefixed name \<or> voltage_rail name \<or> rail_suffixed name"

definition spec_power_ground_name :: "string \<Rightarrow> bool" where
  "spec_power_ground_name name \<longleftrightarrow>
     (\<exists>p \<in> set rail_names. take (length p) name = p)
     \<or> name \<in> set [''3V3'', ''+5V'', ''1V8'']
     \<or> (\<exists>e \<in> set [''_GND'', ''_VCC'', ''_VDD''].
           length e \<le> length name \<and> drop (length name - length e) name = e)"

section \<open>Component classification\<close>

lemma refdes_prefix_takeWhile: "refdes_prefix acc s = acc @ takeWhile isalpha s"
  by (induction s arbitrary: acc) auto

text \<open>
  C8. \<open>derived_type\<close> sends the upper-cased alphabetic prefix of the reference designator
  through the fixed table (R to RES; C to CAP; L, FB to IND; F to FUSE; D, LED to DIODE;
  Q to TRANSISTOR; U to IC; J, P, CN, CONN to CONN; SW to SWITCH; X, Y to OSC; everything
  else to ACTIVE), and \<open>is_passive\<close> holds exactly for the types RES, CAP, IND and FUSE,
  that is exactly for the prefixes R, C, L, FB and F. In particular a component whose
  alphabetic prefix is R in either case is a passive RES.
\<close>

theorem derived_type_prefix_table:
  assumes p: "p = str_upper (takeWhile isalpha (refdes c))"
  shows "(p = code_points ''R'' \<longrightarrow> derived_type c = ''RES'' \<and> is_passive c)
       \<and> (p = code_points ''C'' \<longrightarrow> derived_type c = ''CAP'')
       \<and> (p \<in> {code_points ''L'', code_points ''FB''} \<longrightarrow> derived_type c = ''IND'')
       \<and> (p = code_points ''F'' \<longrightarrow> derived_type c = ''FUSE'')
       \<and> (p \<in> {code_points ''D'', code_points ''LED''} \<longrightarrow> derived_type c = ''DIODE'')
       \<and> (p = code_points ''Q'' \<longrightarrow> derived_type c = ''TRANSISTOR'')
       \<and> (p = code_points ''U'' \<longrightarrow> derived_type c = ''IC'')
       \<and> (p \<in> {code_points ''J'', code_points ''P'', code_points ''CN'', code_points ''CONN''}
            \<longrightarrow> derived_type c = ''CONN'')
       \<and> (p = code_points ''SW'' \<longrightarrow> derived_type c = ''SWITCH'')
       \<and> (p \<in> {code_points ''X'', code_points ''Y''} \<longrightarrow> derived_type c = ''OSC'')
       \<and> (p \<notin> code_points ` {''R'', ''C'', ''L'', ''FB'', ''F'', ''D'', ''LED'', ''Q'', ''U'', ''J'',
                 ''P'', ''CN'', ''CONN'', ''SW'', ''X'', ''Y''} \<longrightarrow> derived_type c = ''ACTIVE'')
       \<and> (is_passive c \<longleftrightarrow> derived_type c \<in> {''RES'', ''CAP'', ''IND'', ''FUSE''})
       \<and> (is_passive c \<longleftrightarrow> p \<in> code_points ` {''R'', ''C'', ''L'', ''FB'', ''F''})
       \<and> (takeWhile isalpha (refdes c) \<in> {''R'', ''r''} \<longrightarrow>
            derived_type c = ''RES'' \<and> is_passive c)"
proof -
  have pre: "str_upper (refdes_prefix [] (refdes c)) = p"
    by (simp add: refdes_prefix_takeWhile p)
  have dt: "derived_type c =
     (if p = code_points ''R'' then ''RES''
      else if p = code_points ''C'' then ''CAP''
      else if p \<in> {code_points ''L'', code_points ''FB''} then ''IND''
      else if p = code_points ''F'' then ''FUSE''
      else if p \<in> {code_points ''D'', code_points ''LED''} then ''DIODE''
      else if p = code_points ''Q'' then ''TRANSISTOR''
      else if p = code_points ''U'' then ''IC''
      else if p \<in> {code_points ''J'', code_points ''P'', code_points ''CN'', code_points ''CONN''}
      then ''CONN''
      else if p = code_points ''SW'' then ''SWITCH''
      else if p \<in> {code_points ''X'', code_points ''Y''} then ''OSC''
      else ''ACTIVE'')"
    unfolding derived_type_def pre Let_def by (rule refl)
  have cp: "code_points ''R'' = [82]" "code_points ''C'' = [67]" "code_points ''L'' = [76]"
    "code_points ''FB'' = [70, 66]" "code_points ''F'' = [70]" "code_points ''D'' = [68]"
    "code_points ''LED'' = [76, 69, 68]" "code_points ''Q'' = [81]" "code_points ''U'' = [85]"
    "code_points ''J'' = [74]" "code_points ''P'' = [80]" "code_points ''CN'' = [67, 78]"
    "code_points ''CONN'' = [67, 79, 78, 78]" "code_points ''SW'' = [83, 87]"
    "code_points ''X'' = [88]" "code_points ''Y'' = [89]"
    by (simp_all add: code_points_def)
  have c1: "p = code_points ''R'' \<longrightarrow> derived_type c = ''RES'' \<and> is_passive c"
    by (simp add: is_passive_def passive_types_def dt cp)
  have c2: "p = code_points ''C'' \<longrightarrow> derived_type c = ''CAP''"
    by (simp add: dt cp)
  have c3: "p \<in> {code_points ''L'', code_points ''FB''} \<longrightarrow> derived_type c = ''IND''"
    by (auto simp: dt cp)
  have c4: "p = code_points ''F'' \<longrightarrow> derived_type c = ''FUSE''"
    by (simp add: dt cp)
  have c5: "p \<in> {code_points ''D'', code_points ''LED''} \<longrightarrow> derived_type c = ''DIODE''"
    by (auto simp: dt cp)
  have c6: "p = code_points ''Q'' \<longrightarrow> derived_type c = ''TRANSISTOR''"
    by (simp add: dt cp)
  have c7: "p = code_points ''U'' \<longrightarrow> derived_type c = ''IC''"
    by (simp add: dt cp)
  have c8: "p \<in> {code_points ''J'', code_points ''P'', code_points ''CN'', code_points ''CONN''}
            \<longrightarrow> derived_type c = ''CONN''"
    by (auto simp: dt cp)
  have c9: "p = code_points ''SW'' \<longrightarrow> derived_type c = ''SWITCH''"
    by (simp add: dt cp)
  have c10: "p \<in> {code_points ''X'', code_points ''Y''} \<longrightarrow> derived_type c = ''OSC''"
    by (auto simp: dt cp)
  have c11: "p \<notin> code_points ` {''R'', ''C'', ''L'', ''FB'', ''F'', ''D'', ''LED'', ''Q'', ''U'', ''J'',
                 ''P'', ''CN'', ''CONN'', ''SW'', ''X'', ''Y''} \<longrightarrow> derived_type c = ''ACTIVE''"
    by (simp add: dt cp)
  have c12: "is_passive c \<longleftrightarrow> derived_type c \<in> {''RES'', ''CAP'', ''IND'', ''FUSE''}"
    by (simp add: is_passive_def passive_types_def)
  have c13: "is_passive c \<longleftrightarrow> p \<in> code_points ` {''R'', ''C'', ''L'', ''FB'', ''F''}"
    unfolding c12 dt by (simp add: cp)
  have r: "takeWhile isalpha (refdes c) \<in> {''R'', ''r''} \<longrightarrow> p = code_points ''R''"
    by (auto simp: p str_upper_def upper_code_points_def code_points_def)
  with c1 have c14: "takeWhile isalpha (refdes c) \<in> {''R'', ''r''} \<longrightarrow>
            derived_type c = ''RES'' \<and> is_passive c"
    by (rule_tac impI) (simp only:)
  show ?thesis
    by (intro conjI c1 c2 c3 c4 c5 c6 c7 c8 c9 c10 c11 c12 c13 c14)
qed

theorem derived_type_prefix_table_witness:
  "str_upper (takeWhile isalpha ''r12'') = code_points ''R''
   \<and> derived_type \<lparr>refdes = ''r12'', comp_value = ''10k'', footprint = ''0805'', mpn = '''',
        page = ''Main'', description = '''', pins = [], location = (0, 0),
        properties = [], multipart_parent = None\<rparr> = ''RES''
   \<and> is_passive \<lparr>refdes = ''r12'', comp_value = ''10k'', footprint = ''0805'', mpn = '''',
        page = ''Main'', description = '''', pins = [], location = (0, 0),
        properties = [], multipart_parent = None\<rparr>
   \<and> str_upper (takeWhile isalpha [CHR ''R'', CHR 0xE9, CHR ''1'']) = [82, 201]
   \<and> derived_type \<lparr>refdes = [CHR ''R'', CHR 0xE9, CHR ''1''], comp_value = ''10k'',
        footprint = ''0805'', mpn = '''', page = ''Main'', description = '''', pins = [],
        location = (0, 0), properties = [], multipart_parent = None\<rparr> = ''ACTIVE''"
proof -
  have u: "str_upper (takeWhile isalpha ''r12'') = code_points ''R''"
    by (simp add: str_upper_def upper_code_points_def isalpha_def code_points_def)
  have v: "str_upper (takeWhile isalpha [CHR ''R'', CHR 0xE9, CHR ''1'']) = [82, 201]"
    by (simp add: str_upper_def upper_code_points_def isalpha_def)
  show ?thesis
    using u v
      derived_type_prefix_table [of "code_points ''R''" "\<lparr>refdes = ''r12'', comp_value = ''10k'',
        footprint = ''0805'', mpn = '''', page = ''Main'', description = '''', pins = [],
        location = (0, 0), properties = [], multipart_parent = None\<rparr>"]
      derived_type_prefix_table [of "[82, 201]" "\<lparr>refdes = [CHR ''R'', CHR 0xE9, CHR ''1''],
        comp_value = ''10k'', footprint = ''0805'', mpn = '''', page = ''Main'',
        description = '''', pins = [], location = (0, 0), properties = [],
        multipart_parent = None\<rparr>"]
    by (simp add: code_points_def)
qed

section \<open>Global nets by name\<close>

lemmas re_defs = re_lit_def re_seq_def re_alt_def re_opt_def re_digit_star_def re_digit_plus_def
  re_dot_star_def re_eol_def re_match_def power_pattern_def newline_def
  upper_def upper_char_def isdigit_def digits_def ascii_lowercase_def ascii_uppercase_def


lemma re_seqI: "r1 \<in> set (a s) \<Longrightarrow> r \<in> set (b r1) \<Longrightarrow> r \<in> set (re_seq a b s)"
  by (auto simp: re_seq_def)

lemma re_altI1: "r \<in> set (a s) \<Longrightarrow> r \<in> set (re_alt a b s)"
  by (simp add: re_alt_def)

lemma re_altI2: "r \<in> set (b s) \<Longrightarrow> r \<in> set (re_alt a b s)"
  by (simp add: re_alt_def)

lemma re_opt_skip: "s \<in> set (re_opt a s)"
  by (simp add: re_opt_def)

lemma re_opt_take: "r \<in> set (a s) \<Longrightarrow> r \<in> set (re_opt a s)"
  by (simp add: re_opt_def)

lemma upper_length: "upper w = upper v \<Longrightarrow> length w = length v"
  unfolding upper_def by (rule map_eq_imp_length_eq)

lemma in_re_lit: "upper w' = upper w \<Longrightarrow> r \<in> set (re_lit w (w' @ r))"
  using upper_length [of w' w] by (simp add: re_lit_def)

lemma in_re_lit_same: "r \<in> set (re_lit w (w @ r))"
  by (rule in_re_lit) (rule refl)

lemma drop_in_runs:
  "n \<le> m \<Longrightarrow> k \<le> n \<Longrightarrow> drop n s \<in> set (map (\<lambda>i. drop i s) (rev [k..<Suc m]))"
proof -
  assume "n \<le> m" and "k \<le> n"
  then have "n \<in> set (rev [k..<Suc m])" by auto
  then show ?thesis unfolding set_map by (rule imageI)
qed

lemma in_re_digit_star: "list_all isdigit d \<Longrightarrow> r \<in> set (re_digit_star (d @ r))"
proof -
  assume d: "list_all isdigit d"
  then have "takeWhile isdigit (d @ r) = d @ takeWhile isdigit r"
    by (simp add: list_all_iff)
  then have "length d \<le> length (takeWhile isdigit (d @ r))" by simp
  then have "drop (length d) (d @ r) \<in> set (re_digit_star (d @ r))"
    unfolding re_digit_star_def by (intro drop_in_runs) simp_all
  then show ?thesis by simp
qed

lemma in_re_digit_plus:
  "list_all isdigit d \<Longrightarrow> d \<noteq> [] \<Longrightarrow> r \<in> set (re_digit_plus (d @ r))"
proof -
  assume d: "list_all isdigit d" and ne: "d \<noteq> []"
  then have "takeWhile isdigit (d @ r) = d @ takeWhile isdigit r"
    by (simp add: list_all_iff)
  then have le: "length d \<le> length (takeWhile isdigit (d @ r))" by simp
  from ne have "1 \<le> length d" by (cases d) simp_all
  with le have "drop (length d) (d @ r) \<in> set (re_digit_plus (d @ r))"
    unfolding re_digit_plus_def by (intro drop_in_runs) simp_all
  then show ?thesis by simp
qed

lemma in_re_dot_star: "newline \<notin> set xs \<Longrightarrow> r \<in> set (re_dot_star (xs @ r))"
proof -
  assume "newline \<notin> set xs"
  then have "takeWhile (\<lambda>c. c \<noteq> newline) (xs @ r) = xs @ takeWhile (\<lambda>c. c \<noteq> newline) r"
    by (intro takeWhile_append2) auto
  then have "length xs \<le> length (takeWhile (\<lambda>c. c \<noteq> newline) (xs @ r))" by simp
  then have "drop (length xs) (xs @ r) \<in> set (re_dot_star (xs @ r))"
    unfolding re_dot_star_def by (intro drop_in_runs) simp_all
  then show ?thesis by simp
qed

lemma re_matchI: "r \<in> set (m s) \<Longrightarrow> re_match m s"
  by (auto simp: re_match_def)

lemma upper_rail_names:
  "upper ''GND'' = ''GND''" "upper ''VSS'' = ''VSS''" "upper ''VCC'' = ''VCC''"
  "upper ''VDD'' = ''VDD''" "upper ''VEE'' = ''VEE''" "upper ''VBAT'' = ''VBAT''"
  by (simp_all add: upper_def upper_char_def ascii_lowercase_def ascii_uppercase_def)

lemma in_re_lit_upper: "upper w' = w \<Longrightarrow> upper w = w \<Longrightarrow> r \<in> set (re_lit w (w' @ r))"
  by (rule in_re_lit) simp

lemma rail_prefix_rests:
  assumes "upper pre \<in> set rail_names"
  shows "r \<in> set (re_alt (re_seq (re_opt (re_lit ''P'')) (re_lit ''GND''))
          (re_alt (re_lit ''VSS'')
          (re_alt (re_lit ''VCC'')
          (re_alt (re_lit ''VDD'')
          (re_alt (re_lit ''VEE'') (re_lit ''VBAT''))))) (pre @ r))"
proof -
  consider "upper pre = ''GND''" | "upper pre = ''VSS''" | "upper pre = ''VCC''"
    | "upper pre = ''VDD''" | "upper pre = ''VEE''" | "upper pre = ''VBAT''"
    using assms by (auto simp: rail_names_def)
  then show ?thesis
  proof cases
    case 1
    then have "r \<in> set (re_lit ''GND'' (pre @ r))"
      by (rule in_re_lit_upper) (rule upper_rail_names)
    then show ?thesis
      by (rule_tac re_altI1, rule_tac re_seqI, rule_tac re_opt_skip)
  next
    case 2
    then have "r \<in> set (re_lit ''VSS'' (pre @ r))"
      by (rule in_re_lit_upper) (rule upper_rail_names)
    then show ?thesis
      by (rule_tac re_altI2, rule_tac re_altI1)
  next
    case 3
    then have "r \<in> set (re_lit ''VCC'' (pre @ r))"
      by (rule in_re_lit_upper) (rule upper_rail_names)
    then show ?thesis
      by (rule_tac re_altI2, rule_tac re_altI2, rule_tac re_altI1)
  next
    case 4
    then have "r \<in> set (re_lit ''VDD'' (pre @ r))"
      by (rule in_re_lit_upper) (rule upper_rail_names)
    then show ?thesis
      by (rule_tac re_altI2, rule_tac re_altI2, rule_tac re_altI2, rule_tac re_altI1)
  next
    case 5
    then have "r \<in> set (re_lit ''VEE'' (pre @ r))"
      by (rule in_re_lit_upper) (rule upper_rail_names)
    then show ?thesis
      by (rule_tac re_altI2, rule_tac re_altI2, rule_tac re_altI2, rule_tac re_altI2,
          rule_tac re_altI1)
  next
    case 6
    then have "r \<in> set (re_lit ''VBAT'' (pre @ r))"
      by (rule in_re_lit_upper) (rule upper_rail_names)
    then show ?thesis
      by (rule_tac re_altI2, rule_tac re_altI2, rule_tac re_altI2, rule_tac re_altI2,
          rule_tac re_altI2)
  qed
qed

lemma re_dot_star_self: "s \<in> set (re_dot_star s)"
  using in_re_dot_star [of "[]" s] by simp

lemma re_digit_star_self: "s \<in> set (re_digit_star s)"
  using in_re_digit_star [of "[]" s] by simp

lemma rail_prefixed_match:
  assumes "rail_prefixed name"
  shows "re_match power_pattern name"
proof -
  from assms obtain pre suffix where name: "name = pre @ suffix"
    and pre: "upper pre \<in> set rail_names"
    and suffix: "suffix = [] \<or> (\<exists>t. suffix = CHR ''_'' # t)"
    unfolding rail_prefixed_def by blast
  have head: "suffix \<in> set (re_alt (re_seq (re_opt (re_lit ''P'')) (re_lit ''GND''))
          (re_alt (re_lit ''VSS'')
          (re_alt (re_lit ''VCC'')
          (re_alt (re_lit ''VDD'')
          (re_alt (re_lit ''VEE'') (re_lit ''VBAT''))))) name)"
    unfolding name using pre by (rule rail_prefix_rests)
  have tail: "\<exists>r. r \<in> set (re_alt re_eol (re_seq (re_lit ''_'') re_dot_star) suffix)"
  proof (cases "suffix = []")
    case True
    then have "[] \<in> set (re_eol suffix)" by (simp add: re_eol_def)
    then have e: "[] \<in> set (re_alt re_eol (re_seq (re_lit ''_'') re_dot_star) suffix)"
      by (rule_tac re_altI1)
    show ?thesis by (rule exI [of _ "[]"]) (rule e)
  next
    case False
    with suffix obtain t where t: "suffix = ''_'' @ t" by auto
    have l: "t \<in> set (re_lit ''_'' suffix)" unfolding t by (rule in_re_lit_same)
    have e: "t \<in> set (re_alt re_eol (re_seq (re_lit ''_'') re_dot_star) suffix)"
      by (rule re_altI2, rule re_seqI, rule l, rule re_dot_star_self)
    show ?thesis by (rule exI [of _ t]) (rule e)
  qed
  then obtain r where r: "r \<in> set (re_alt re_eol (re_seq (re_lit ''_'') re_dot_star) suffix)" ..
  have m: "r \<in> set (power_pattern name)"
    unfolding power_pattern_def
    by (rule re_altI1, rule re_seqI, rule head, rule r)
  show ?thesis by (rule re_matchI [of r power_pattern name]) (rule m)
qed



lemma upper_single_V: "upper_char v = CHR ''V'' \<Longrightarrow> upper [v] = upper ''V''"
  by (simp add: upper_def upper_char_def ascii_lowercase_def ascii_uppercase_def)

lemma voltage_rail_parts_match:
  assumes name: "name = sign @ d1 @ dot @ d2 @ v # rest"
    and sign: "sign \<in> {[], ''+''}" and dot: "dot \<in> {[], ''.''}"
    and d1: "list_all isdigit d1" and d2: "list_all isdigit d2"
    and v: "upper_char v = CHR ''V''"
    and more: "d1 \<noteq> [] \<or> (\<exists>d t. rest = d # t \<and> isdigit d)"
  shows "re_match power_pattern name"
proof -
  define body where "body = d1 @ dot @ d2 @ v # rest"
  define after_d1 where "after_d1 = dot @ d2 @ v # rest"
  define after_dot where "after_dot = d2 @ v # rest"
  define after_d2 where "after_d2 = v # rest"
  have s0: "body \<in> set (re_opt (re_lit ''+'') name)"
  proof (cases "sign = []")
    case True
    then have "name = body" by (simp add: name body_def)
    then show ?thesis by (simp add: re_opt_skip)
  next
    case False
    with sign have "name = ''+'' @ body" by (simp add: name body_def)
    then show ?thesis by (simp only: re_opt_take in_re_lit_same)
  qed
  have s2: "after_dot \<in> set (re_opt (re_lit ''.'') after_d1)"
  proof (cases "dot = []")
    case True
    then have "after_d1 = after_dot" by (simp add: after_dot_def after_d1_def)
    then show ?thesis by (simp add: re_opt_skip)
  next
    case False
    with dot have "after_d1 = ''.'' @ after_dot" by (simp add: after_dot_def after_d1_def)
    then show ?thesis by (simp only: re_opt_take in_re_lit_same)
  qed
  have s3: "after_d2 \<in> set (re_digit_star after_dot)"
    unfolding after_dot_def after_d2_def using d2 by (rule in_re_digit_star)
  have s4: "rest \<in> set (re_lit ''V'' after_d2)"
    unfolding after_d2_def using in_re_lit [OF upper_single_V [OF v], of rest] by simp
  show ?thesis
  proof (cases "d1 = []")
    case False
    have s1: "after_d1 \<in> set (re_digit_plus body)"
      unfolding after_d1_def body_def using d1 False by (rule in_re_digit_plus)
    have m: "rest \<in> set (power_pattern name)"
      unfolding power_pattern_def
      apply (rule re_altI2, rule re_altI1, rule re_altI1)
      apply (rule re_seqI, rule s0)
      apply (rule re_altI1)
      apply (rule re_seqI, rule s1)
      apply (rule re_seqI, rule s2)
      apply (rule re_seqI, rule s3)
      apply (rule re_seqI, rule s4)
      apply (rule re_digit_star_self)
      done
    show ?thesis by (rule re_matchI [of rest power_pattern name]) (rule m)
  next
    case True
    with more have "\<exists>d t. rest = d # t \<and> isdigit d" by simp
    then obtain d t where "rest = d # t" and d: "isdigit d" by (elim exE conjE)
    then have rest: "rest = [d] @ t" by simp
    have s1: "after_d1 \<in> set (re_digit_star body)"
      unfolding after_d1_def body_def using d1 by (rule in_re_digit_star)
    have s5: "t \<in> set (re_digit_plus rest)"
      unfolding rest by (rule in_re_digit_plus) (simp_all add: d)
    have m: "t \<in> set (power_pattern name)"
      unfolding power_pattern_def
      apply (rule re_altI2, rule re_altI1, rule re_altI1)
      apply (rule re_seqI, rule s0)
      apply (rule re_altI2)
      apply (rule re_seqI, rule s1)
      apply (rule re_seqI, rule s2)
      apply (rule re_seqI, rule s3)
      apply (rule re_seqI, rule s4)
      apply (rule s5)
      done
    show ?thesis by (rule re_matchI [of t power_pattern name]) (rule m)
  qed
qed

lemma voltage_rail_match: "voltage_rail name \<Longrightarrow> re_match power_pattern name"
  unfolding voltage_rail_def
  by (elim exE conjE, rule voltage_rail_parts_match; assumption)

lemma rail_suffixed_match:
  assumes "rail_suffixed name"
  shows "re_match power_pattern name"
proof -
  from assms obtain xs w where name: "name = xs @ ''_'' @ w"
    and xs: "newline \<notin> set xs" and w: "upper w \<in> {''GND'', ''VCC'', ''VDD''}"
    unfolding rail_suffixed_def by auto
  define tl1 where "tl1 = ''_'' @ w"
  have s1: "tl1 \<in> set (re_dot_star name)"
    unfolding name tl1_def using xs by (rule in_re_dot_star)
  have s2: "w \<in> set (re_lit ''_'' tl1)"
    unfolding tl1_def by (rule in_re_lit_same)
  have lit: "[] \<in> set (re_lit k w)" if "upper w = k" "upper k = k" for k
    using in_re_lit_upper [OF that, of "[]"] by simp
  have s3: "[] \<in> set (re_alt (re_lit ''GND'') (re_alt (re_lit ''VCC'') (re_lit ''VDD'')) w)"
  proof -
    consider "upper w = ''GND''" | "upper w = ''VCC''" | "upper w = ''VDD''"
      using w by auto
    then show ?thesis
    proof cases
      case 1
      then have "[] \<in> set (re_lit ''GND'' w)" by (rule lit) (rule upper_rail_names)
      then show ?thesis by (rule_tac re_altI1)
    next
      case 2
      then have "[] \<in> set (re_lit ''VCC'' w)" by (rule lit) (rule upper_rail_names)
      then show ?thesis by (rule_tac re_altI2, rule_tac re_altI1)
    next
      case 3
      then have "[] \<in> set (re_lit ''VDD'' w)" by (rule lit) (rule upper_rail_names)
      then show ?thesis by (rule_tac re_altI2, rule_tac re_altI2)
    qed
  qed
  have s4: "[] \<in> set (re_eol [])" by (simp add: re_eol_def)
  have m: "[] \<in> set (power_pattern name)"
    unfolding power_pattern_def
    apply (rule re_altI2, rule re_altI2)
    apply (rule re_seqI, rule s1)
    apply (rule re_seqI, rule s2)
    apply (rule re_seqI, rule s3)
    apply (rule s4)
    done
  show ?thesis by (rule re_matchI [of "[]" power_pattern name]) (rule m)
qed

lemma power_ground_name_match: "power_ground_name name \<Longrightarrow> re_match power_pattern name"
  unfolding power_ground_name_def
  using rail_prefixed_match voltage_rail_match rail_suffixed_match by blast

text \<open>
  C3, as the code has it. A net is global whatever its members and pages are, also with a
  single member on a single page, when its name, letters compared without regard to case,
  is GND, VSS, VCC, VDD, VEE or VBAT alone or followed by an underscore and any suffix,
  or begins with a voltage rail (an optional plus sign, digits, an optional point, digits
  and V, with a digit before the point or directly after the V, such as 3V3, +5V and
  1V8), or contains no line feed and ends in \<open>_GND\<close>, \<open>_VCC\<close> or \<open>_VDD\<close>.
\<close>

theorem is_global_power_ground_name:
  "power_ground_name (net_name n) \<Longrightarrow> is_global n"
  by (simp add: is_global_def power_ground_name_match)

theorem is_global_power_ground_name_witness:
  "power_ground_name ''3V3''
   \<and> is_global \<lparr>net_name = ''3V3'', pages = {''Main''}, members = [(''U1'', ''1'')]\<rparr>"
proof -
  have "''3V3'' = [] @ ''3'' @ [] @ [] @ CHR ''V'' # ''3''" by simp
  then have "voltage_rail ''3V3''"
    unfolding voltage_rail_def
    by (intro exI conjI, assumption)
       (simp_all add: isdigit_def digits_def upper_char_def ascii_lowercase_def
          ascii_uppercase_def)
  then have h: "power_ground_name ''3V3''" by (simp add: power_ground_name_def)
  show ?thesis
    using h is_global_power_ground_name
      [of "\<lparr>net_name = ''3V3'', pages = {''Main''}, members = [(''U1'', ''1'')]\<rparr>"]
    by simp
qed

text \<open>
  C3 as stated fails: the name VDDA is the prefix VDD with a suffix, and a net of that
  name with one member on one page is not global, since the pattern wants the end of the
  name or an underscore after the rail name.
\<close>

theorem is_global_suffixed_prefix_counterexample:
  "spec_power_ground_name ''VDDA''
   \<and> \<not> is_global \<lparr>net_name = ''VDDA'', pages = {''Main''}, members = [(''U1'', ''1'')]\<rparr>"
  by (simp add: spec_power_ground_name_def rail_names_def is_global_def re_defs)

section \<open>Natural sort of pin designators\<close>

subsection \<open>The split\<close>





lemma re_split_digits_prefixed:
  assumes p: "list_all (\<lambda>c. \<not> isdigit c) p" and "d \<noteq> []" "list_all isdigit d"
  shows "re_split_digits (p @ d) = [p, d, []]"
proof -
  from assms have all: "\<forall>c \<in> set d. isdigit c" by (simp add: list_all_iff)
  from p have np: "\<forall>c \<in> set p. \<not> isdigit c" by (simp add: list_all_iff)
  from all have hd: "takeWhile (\<lambda>c. \<not> isdigit c) d = []" "dropWhile (\<lambda>c. \<not> isdigit c) d = d"
    using assms(2) by (cases d, auto)+
  have t: "takeWhile (\<lambda>c. \<not> isdigit c) (p @ d) = p"
    using np by (simp add: hd)
  have dw: "dropWhile (\<lambda>c. \<not> isdigit c) (p @ d) = d"
    using np by (simp add: hd)
  from all have td: "takeWhile isdigit d = d" by (simp add: takeWhile_eq_all_conv)
  from all have dd: "dropWhile isdigit d = []" by simp
  have e: "re_split_digits [] = [[]]" by (subst re_split_digits.simps) simp
  show ?thesis
    by (subst re_split_digits.simps) (simp add: t dw td dd e assms(2))
qed

subsection \<open>The key\<close>






lemma piece_key_text: "list_all (\<lambda>c. \<not> isdigit c) piece \<Longrightarrow> piece_key piece = KStr piece"
  by (cases piece) (auto simp: piece_key_def)

lemma piece_key_digits:
  "piece \<noteq> [] \<Longrightarrow> list_all isdigit piece \<Longrightarrow> piece_key piece = KInt (decimal_value piece)"
  by (simp add: piece_key_def)





lemma key_of_prefixed:
  assumes "list_all (\<lambda>c. \<not> isdigit c) p" and "d \<noteq> []" "list_all isdigit d"
  shows "key_of (p @ d) = [KStr p, KInt (decimal_value d), KStr []]"
  using assms
  by (simp add: key_of_def re_split_digits_prefixed piece_key_text piece_key_digits)

subsection \<open>The order\<close>




subsection \<open>The sort\<close>




subsection \<open>Designators without a key\<close>









subsection \<open>The first difference decides\<close>









section \<open>Truncation of global nets\<close>

lemma length_pin_refs: "length (pin_refs n comps) = length (members n)"
  by (simp add: pin_refs_def)

lemma last_net_block_lines: "last (net_block_lines n net_pages comps) = ''  CON: '' @ con_str n comps"
  by (simp add: net_block_lines_def)

lemma str_nat_17: "str_nat 17 = ''17''"
  by code_simp

text \<open>
  C1. For a global net with more than ten members the connections line of the net block
  is \<open>CON:\<close> followed by the first ten pin references in ascending string order, joined
  by commas, and the suffix \<open>(+ N others)\<close> with \<open>N\<close> the number of members less ten; with 27
  members the suffix is \<open>(+ 17 others)\<close>.
\<close>

theorem global_net_truncated:
  assumes "is_global n" and "length (members n) > 10"
  shows "con_str n comps
           = join '', '' (take 10 (pin_refs n comps))
             @ '' (+ '' @ str_nat (length (members n) - 10) @ '' others)''
       \<and> last (net_block_lines n net_pages comps) = ''  CON: '' @ con_str n comps
       \<and> format_net_block n net_pages comps = join [newline] (net_block_lines n net_pages comps)
       \<and> pin_refs n comps
           = sort (map (\<lambda>(r, d). format_pin_reference r d comps) (members n))
       \<and> length (take 10 (pin_refs n comps)) = 10
       \<and> sorted (take 10 (pin_refs n comps))
       \<and> (length (members n) = 27 \<longrightarrow>
            con_str n comps = join '', '' (take 10 (pin_refs n comps)) @ '' (+ 17 others)'')"
proof -
  have len: "length (pin_refs n comps) = length (members n)" by (rule length_pin_refs)
  have c: "con_str n comps
           = join '', '' (take 10 (pin_refs n comps))
             @ '' (+ '' @ str_nat (length (members n) - 10) @ '' others)''"
    using assms by (simp add: con_str_def len)
  have s: "sorted (take 10 (pin_refs n comps))"
    unfolding pin_refs_def by (rule sorted_wrt_take) simp
  have l: "length (take 10 (pin_refs n comps)) = 10"
    using assms(2) by (simp add: len)
  have t: "length (members n) = 27 \<longrightarrow>
            con_str n comps = join '', '' (take 10 (pin_refs n comps)) @ '' (+ 17 others)''"
    using c by (simp add: str_nat_17)
  show ?thesis
    using c s l t by (simp add: last_net_block_lines format_net_block_def pin_refs_def)
qed


theorem global_net_truncated_witness:
  "is_global gnd27 \<and> length (members gnd27) = 27
   \<and> con_str gnd27 []
       = ''R1.1, R10.1, R11.1, R12.1, R13.1, R14.1, R15.1, R16.1, R17.1, R18.1 (+ 17 others)''"
proof -
  have g: "is_global gnd27" by code_simp
  have l: "length (members gnd27) = 27" by code_simp
  have r: "take 10 (pin_refs gnd27 [])
             = [''R1.1'', ''R10.1'', ''R11.1'', ''R12.1'', ''R13.1'', ''R14.1'', ''R15.1'',
                ''R16.1'', ''R17.1'', ''R18.1'']"
    by code_simp
  show ?thesis
    using g l global_net_truncated [of gnd27 "[]" "{}"] by (simp add: r str_nat_17)
qed

section \<open>Pin references\<close>

lemma find_component_find: "find_component r comps = List.find (\<lambda>c. refdes c = r) comps"
  by (induction comps) auto

lemma find_pin_find: "find_pin d ps = List.find (\<lambda>p. designator p = d) ps"
  by (induction ps) auto

text \<open>
  C9. A member \<open>(refdes, pin)\<close> is rendered \<open>REFDES.PIN(NAME)\<close> exactly when the first
  component of that reference designator is known, its first pin of that designator
  exists, and that pin's name \<open>NAME\<close> is neither empty nor one of 1, 2, 3, 4, A, K; in every
  other case it is rendered \<open>REFDES.PIN\<close>.
\<close>

theorem pin_reference_named_iff:
  "(format_pin_reference r d comps = r @ ''.'' @ d @ ''('' @ nm @ '')''
      \<longleftrightarrow> (\<exists>c p. List.find (\<lambda>c. refdes c = r) comps = Some c
                 \<and> List.find (\<lambda>p. designator p = d) (pins c) = Some p
                 \<and> pin_name p = nm \<and> nm \<noteq> [] \<and> nm \<notin> {''1'', ''2'', ''3'', ''4'', ''A'', ''K''}))
   \<and> (format_pin_reference r d comps = r @ ''.'' @ d
      \<longleftrightarrow> \<not> (\<exists>c p. List.find (\<lambda>c. refdes c = r) comps = Some c
                 \<and> List.find (\<lambda>p. designator p = d) (pins c) = Some p
                 \<and> pin_name p \<noteq> [] \<and> pin_name p \<notin> {''1'', ''2'', ''3'', ''4'', ''A'', ''K''}))"
proof (cases "List.find (\<lambda>c. refdes c = r) comps")
  case None
  then show ?thesis
    by (simp add: format_pin_reference_def find_component_find)
next
  case (Some c)
  note c = this
  show ?thesis
  proof (cases "List.find (\<lambda>p. designator p = d) (pins c)")
    case None
    with c show ?thesis
      by (simp add: format_pin_reference_def find_component_find find_pin_find)
  next
    case (Some p)
    with c show ?thesis
      by (auto simp: format_pin_reference_def find_component_find find_pin_find simple_names_def)
  qed
qed


theorem pin_reference_named_iff_witness:
  "format_pin_reference ''U1'' ''22'' [demo_u1] = ''U1.22(PA9_TX)''
   \<and> format_pin_reference ''U1'' ''1'' [demo_u1] = ''U1.1''
   \<and> format_pin_reference ''R1'' ''2'' [demo_u1] = ''R1.2''"
  using pin_reference_named_iff [of "''U1''" "''22''" "[demo_u1]" "''PA9_TX''"]
    pin_reference_named_iff [of "''U1''" "''1''" "[demo_u1]" "[]"]
    pin_reference_named_iff [of "''R1''" "''2''" "[demo_u1]" "[]"]
  by (simp add: demo_u1_def)

section \<open>Refresh and the cache\<close>

lemma refresh_clean: "\<not> dirty L \<Longrightarrow> refresh ops L = (Inr (), L)"
  by (simp add: refresh_def)

lemma refresh_success_clean: "refresh ops L = (Inr (), L1) \<Longrightarrow> \<not> dirty L1"
  by (auto simp: refresh_def split: if_splits prod.splits sum.splits)

lemma refresh_logged_calls:
  assumes "dirty L" and "refresh (logged ops) L = (Inr (), L1)"
  shows "call_log L1 = call_log L @ [FetchRawData, GetComponents, GetNets]"
proof -
  obtain p log where pl: "provider L = (p, log)" by (cases "provider L")
  show ?thesis
    using assms
    by (auto simp: refresh_def logged_def call_log_def pl split: prod.splits sum.splits)
qed

text \<open>
  C2, as the code has it. From a stale Librarian whose refresh succeeds, two refreshes in
  succession fetch exactly once: the first calls the provider's fetch, components and
  nets operations once each and clears the stale flag; the second calls none of them and
  returns the Librarian as it was, cache and Atlas included.
\<close>

theorem refresh_twice_fetches_once:
  assumes "dirty L" and "refresh (logged ops) L = (Inr (), L1)"
  shows "\<not> dirty L1
       \<and> refresh (logged ops) L1 = (Inr (), L1)
       \<and> call_log L1 = call_log L @ [FetchRawData, GetComponents, GetNets]
       \<and> call_log (snd (refresh (logged ops) L1)) = call_log L1
       \<and> fetch_count (snd (refresh (logged ops) L1)) = fetch_count L + 1
       \<and> components (snd (refresh (logged ops) L1)) = components L1
       \<and> nets (snd (refresh (logged ops) L1)) = nets L1
       \<and> net_page_map (snd (refresh (logged ops) L1)) = net_page_map L1"
proof -
  have clean: "\<not> dirty L1" using assms(2) by (rule refresh_success_clean)
  then have second: "refresh (logged ops) L1 = (Inr (), L1)" by (rule refresh_clean)
  have log: "call_log L1 = call_log L @ [FetchRawData, GetComponents, GetNets]"
    using assms by (rule refresh_logged_calls)
  show ?thesis
    using clean log by (simp add: second fetch_count_def)
qed

lemma logged_cached_eq:
  "refresh (logged demo_provider) (new_librarian (0, [])) = (Inr (), logged_cached)"
  by (simp add: logged_cached_def refresh_def logged_def demo_provider_def new_librarian_def)

theorem refresh_twice_fetches_once_witness:
  "dirty (new_librarian (0::nat, []))
   \<and> refresh (logged demo_provider) (new_librarian (0, [])) = (Inr (), logged_cached)
   \<and> refresh (logged demo_provider) logged_cached = (Inr (), logged_cached)
   \<and> fetch_count logged_cached = 1
   \<and> call_log logged_cached = [FetchRawData, GetComponents, GetNets]"
proof -
  have d: "dirty (new_librarian (0::nat, []))" by (simp add: new_librarian_def)
  have l: "call_log (new_librarian (0::nat, [])) = []"
    by (simp add: new_librarian_def call_log_def)
  show ?thesis
    using d logged_cached_eq refresh_twice_fetches_once [OF d logged_cached_eq]
    by (simp add: l fetch_count_def)
qed

text \<open>
  C2 as stated fails for a Librarian that is not stale: after a successful refresh, two
  more refreshes in succession perform no fetch at all.
\<close>

theorem refresh_twice_clean_counterexample:
  "\<not> dirty logged_cached
   \<and> fst (refresh (logged demo_provider) logged_cached) = Inr ()
   \<and> fst (refresh (logged demo_provider) (snd (refresh (logged demo_provider) logged_cached)))
       = Inr ()
   \<and> fetch_count (snd (refresh (logged demo_provider)
                          (snd (refresh (logged demo_provider) logged_cached))))
       - fetch_count logged_cached = 0"
proof -
  have c: "\<not> dirty logged_cached"
    using logged_cached_eq by (rule refresh_success_clean)
  then have r: "refresh (logged demo_provider) logged_cached = (Inr (), logged_cached)"
    by (rule refresh_clean)
  show ?thesis using c by (simp add: r)
qed

text \<open>
  C4, as the code has it. When a refresh of a stale Librarian fails, the exception reaches
  the caller, the cached nets and the Atlas are as before and the Librarian stays stale;
  the cached components are as before too when it is the fetch or the components getter
  that raised.
\<close>

theorem refresh_failure_keeps_cache:
  assumes "dirty L"
  shows "(fst (fetch_raw_data ops (provider L)) = Inl e \<longrightarrow>
            fst (refresh ops L) = Inl e
            \<and> components (snd (refresh ops L)) = components L
            \<and> nets (snd (refresh ops L)) = nets L
            \<and> net_page_map (snd (refresh ops L)) = net_page_map L
            \<and> dirty (snd (refresh ops L)))
       \<and> (fst (fetch_raw_data ops (provider L)) = Inr ()
            \<and> fst (get_components ops (snd (fetch_raw_data ops (provider L)))) = Inl e \<longrightarrow>
            fst (refresh ops L) = Inl e
            \<and> components (snd (refresh ops L)) = components L
            \<and> nets (snd (refresh ops L)) = nets L
            \<and> net_page_map (snd (refresh ops L)) = net_page_map L
            \<and> dirty (snd (refresh ops L)))
       \<and> (fst (fetch_raw_data ops (provider L)) = Inr ()
            \<and> fst (get_components ops (snd (fetch_raw_data ops (provider L)))) = Inr cs
            \<and> fst (get_nets ops (snd (get_components ops (snd (fetch_raw_data ops (provider L))))))
                = Inl e \<longrightarrow>
            fst (refresh ops L) = Inl e
            \<and> nets (snd (refresh ops L)) = nets L
            \<and> net_page_map (snd (refresh ops L)) = net_page_map L
            \<and> dirty (snd (refresh ops L)))
       \<and> (fst (refresh ops L) = Inl e \<longrightarrow>
            nets (snd (refresh ops L)) = nets L
            \<and> net_page_map (snd (refresh ops L)) = net_page_map L
            \<and> dirty (snd (refresh ops L)))"
  using assms
  by (auto simp: refresh_def split: prod.splits sum.splits)

lemma demo_cached_eq: "refresh demo_provider (new_librarian 0) = (Inr (), demo_cached)"
  by (simp add: demo_cached_def refresh_def demo_provider_def new_librarian_def)

lemma demo_cached_fields:
  "provider demo_cached = 1" "\<not> dirty demo_cached" "components demo_cached = [demo_u1]"
  "nets demo_cached = [uart_tx]"
  by (simp_all add: demo_cached_def refresh_def demo_provider_def new_librarian_def)

lemma demo_stale_fields:
  "provider demo_stale = 1" "dirty demo_stale" "components demo_stale = [demo_u1]"
  "nets demo_stale = [uart_tx]" "net_page_map demo_stale = net_page_map demo_cached"
  by (simp_all add: demo_stale_def mark_dirty_def demo_cached_fields)

theorem refresh_failure_keeps_cache_witness:
  "dirty demo_stale
   \<and> fst (refresh demo_provider demo_stale) = Inl (ProviderError ''malformed net'')
   \<and> nets (snd (refresh demo_provider demo_stale)) = [uart_tx]
   \<and> net_page_map (snd (refresh demo_provider demo_stale)) = net_page_map demo_cached
   \<and> dirty (snd (refresh demo_provider demo_stale))
   \<and> fst (refresh offline_provider demo_stale) = Inl (ProviderError ''file not found'')
   \<and> components (snd (refresh offline_provider demo_stale)) = [demo_u1]
   \<and> nets (snd (refresh offline_provider demo_stale)) = [uart_tx]"
proof -
  have g: "fst (fetch_raw_data offline_provider (provider demo_stale))
             = Inl (ProviderError ''file not found'')"
    by (simp add: offline_provider_def)
  have f: "fst (fetch_raw_data demo_provider (provider demo_stale)) = Inr ()"
    "fst (get_components demo_provider (snd (fetch_raw_data demo_provider (provider demo_stale))))
       = Inr [demo_u1, demo_r1]"
    "fst (get_nets demo_provider (snd (get_components demo_provider
            (snd (fetch_raw_data demo_provider (provider demo_stale))))))
       = Inl (ProviderError ''malformed net'')"
    by (simp_all add: demo_provider_def demo_stale_fields)
  show ?thesis
    using f g refresh_failure_keeps_cache [of demo_stale demo_provider
        "ProviderError ''malformed net''" "[demo_u1, demo_r1]"]
      refresh_failure_keeps_cache [of demo_stale offline_provider
        "ProviderError ''file not found''" "[]"]
    by (simp add: demo_stale_fields)
qed

text \<open>
  C4 as stated fails when the nets getter raises: by then the cached components have
  been replaced by the newly fetched ones, while nets and Atlas are the old ones.
\<close>

theorem refresh_failure_components_counterexample:
  "fst (refresh demo_provider (new_librarian 0)) = Inr ()
   \<and> components demo_stale = [demo_u1]
   \<and> dirty demo_stale
   \<and> fst (refresh demo_provider demo_stale) = Inl (ProviderError ''malformed net'')
   \<and> components (snd (refresh demo_provider demo_stale)) = [demo_u1, demo_r1]
   \<and> components (snd (refresh demo_provider demo_stale)) \<noteq> components demo_stale"
proof -
  have a: "fst (refresh demo_provider (new_librarian 0)) = Inr ()"
    by (simp add: demo_cached_eq)
  have b: "refresh demo_provider demo_stale
             = (Inl (ProviderError ''malformed net''),
                demo_stale\<lparr>provider := 2, components := [demo_u1, demo_r1]\<rparr>)"
    by (simp add: refresh_def demo_provider_def demo_stale_fields)
  show ?thesis
    using a by (simp add: b demo_stale_fields)
qed

section \<open>Page queries\<close>

lemma join_Cons_prefix: "\<exists>t. join sep (x # xs) = x @ t"
  by (cases xs) auto

lemma emit_page_dsl_starts:
  assumes "comps \<noteq> []"
  shows "(\<exists>e. emit_page_dsl comps ns m = Inl e)
       \<or> (\<exists>t. emit_page_dsl comps ns m
                = Inr (''# PAGE: '' @ page (hd comps) @ [newline, newline] @ ''# COMPONENTS'' @ t))"
proof -
  from assms obtain c cs where comps: "comps = c # cs" by (cases comps) auto
  define B where "B = (if filter is_complex (sort_key refdes comps) = []
      then Inr [''(All components are simple passives - see NETS section)'']
      else collect (map format_component_block (filter is_complex (sort_key refdes comps))))"
  define T where "T = ['''', ''# NETS'']
      @ map (\<lambda>n. format_net_block n (case m (net_name n) of None \<Rightarrow> {} | Some ps \<Rightarrow> ps)
                     (sort_key refdes comps))
            (sort_key net_name ns)"
  have e: "emit_page_dsl comps ns m
      = (case B of Inl e \<Rightarrow> Inl e
         | Inr blocks \<Rightarrow>
             Inr (join [newline] ([''# PAGE: '' @ page c, '''', ''# COMPONENTS''] @ blocks @ T)))"
    unfolding emit_page_dsl_def Let_def B_def T_def comps list.case ..
  show ?thesis
  proof (cases B)
    case (Inl err)
    then show ?thesis by (simp add: e)
  next
    case (Inr blocks)
    obtain t where "join [newline] (''# COMPONENTS'' # blocks @ T) = ''# COMPONENTS'' @ t"
      using join_Cons_prefix by blast
    then have "emit_page_dsl comps ns m
        = Inr (''# PAGE: '' @ page c @ [newline, newline] @ ''# COMPONENTS'' @ t)"
      by (simp add: e Inr)
    then show ?thesis by (simp add: comps)
  qed
qed

lemma emit_page_dsl_not_missing:
  assumes "comps \<noteq> []" and "page (hd comps) = page_name"
  shows "emit_page_dsl comps ns m \<noteq> Inr (page_not_found_text page_name)"
  using emit_page_dsl_starts [OF assms(1), of ns m]
  by (auto simp: page_not_found_text_def assms(2))

lemma no_components_not_missing: "no_components_text \<noteq> page_not_found_text page_name"
  by (simp add: no_components_text_def page_not_found_text_def)

lemma page_components_empty:
  "page_components L page_name = [] \<longleftrightarrow> (\<forall>c \<in> set (components L). page c \<noteq> page_name)"
  by (auto simp: page_components_def filter_empty_conv)

lemma hd_page_components:
  "page_components L page_name \<noteq> [] \<Longrightarrow> page (hd (page_components L page_name)) = page_name"
proof -
  assume ne: "page_components L page_name \<noteq> []"
  then have "hd (page_components L page_name) \<in> set (page_components L page_name)"
    by (rule hd_in_set)
  then show ?thesis by (simp add: page_components_def)
qed

lemma get_page_text_missing_iff:
  "get_page_text L page_name = Inr (page_not_found_text page_name)
     \<longleftrightarrow> (\<forall>c \<in> set (components L). page c \<noteq> page_name)
         \<and> (\<forall>n \<in> set (nets L). page_name \<notin> pages n)"
proof (cases "page_components L page_name = []")
  case True
  then have no: "\<forall>c \<in> set (components L). page c \<noteq> page_name"
    by (simp add: page_components_empty)
  show ?thesis
  proof (cases "\<exists>n \<in> set (nets L). page_name \<in> pages n")
    case True
    then have "get_page_text L page_name = Inr no_components_text"
      using \<open>page_components L page_name = []\<close>
      by (simp add: get_page_text_def emit_page_dsl_def)
    with True show ?thesis by (auto simp: no_components_not_missing)
  next
    case False
    then have "get_page_text L page_name = Inr (page_not_found_text page_name)"
      using \<open>page_components L page_name = []\<close> by (simp add: get_page_text_def)
    with False no show ?thesis by auto
  qed
next
  case False
  then have some: "\<not> (\<forall>c \<in> set (components L). page c \<noteq> page_name)"
    by (simp add: page_components_empty)
  from False have "get_page_text L page_name
      = emit_page_dsl (page_components L page_name) (page_nets L page_name) (net_page_map L)"
    by (simp add: get_page_text_def)
  moreover have "emit_page_dsl (page_components L page_name) (page_nets L page_name)
      (net_page_map L) \<noteq> Inr (page_not_found_text page_name)"
    using False by (intro emit_page_dsl_not_missing hd_page_components)
  ultimately show ?thesis using some by simp
qed

lemma get_page_after_refresh:
  "refresh ops L = (Inr (), L') \<Longrightarrow> get_page ops L page_name = (get_page_text L' page_name, L')"
  by (simp add: get_page_def)

text \<open>
  C6. When the refresh that opens the query succeeds, \<open>get_page\<close> answers with the
  not-found message exactly when no cached component lies on the page and no cached net
  lists the page; a page that only nets list is not answered with that message.
\<close>

theorem get_page_not_found_iff:
  assumes "refresh ops L = (Inr (), L')"
  shows "(fst (get_page ops L page_name) = Inr (page_not_found_text page_name)
           \<longleftrightarrow> (\<forall>c \<in> set (components L'). page c \<noteq> page_name)
               \<and> (\<forall>n \<in> set (nets L'). page_name \<notin> pages n))
       \<and> ((\<forall>c \<in> set (components L'). page c \<noteq> page_name)
            \<and> (\<exists>n \<in> set (nets L'). page_name \<in> pages n)
           \<longrightarrow> fst (get_page ops L page_name) \<noteq> Inr (page_not_found_text page_name))"
  using get_page_text_missing_iff [of L' page_name]
  by (auto simp: get_page_after_refresh [OF assms])

lemma demo_cached_clean: "refresh demo_provider demo_cached = (Inr (), demo_cached)"
  by (rule refresh_clean) (simp add: demo_cached_fields)

theorem get_page_not_found_iff_witness:
  "refresh demo_provider demo_cached = (Inr (), demo_cached)
   \<and> fst (get_page demo_provider demo_cached ''Connector'')
       = Inr (page_not_found_text ''Connector'')
   \<and> fst (get_page demo_provider demo_cached ''Power'') \<noteq> Inr (page_not_found_text ''Power'')
   \<and> fst (get_page demo_provider demo_cached ''Main'') \<noteq> Inr (page_not_found_text ''Main'')"
  using demo_cached_clean
    get_page_not_found_iff [OF demo_cached_clean, of "''Connector''"]
    get_page_not_found_iff [OF demo_cached_clean, of "''Power''"]
    get_page_not_found_iff [OF demo_cached_clean, of "''Main''"]
  by (simp add: demo_cached_fields demo_u1_def uart_tx_def)

text \<open>
  C10. When the refresh that opens the query succeeds and the page has no cached
  component but some cached net lists it, \<open>get_page\<close> returns the one line
  \<open># No components on this page\<close> with its line feed, and none of the nets is kept for
  rendering, since none has a member on a component of the page.
\<close>

theorem get_page_nets_only:
  assumes "refresh ops L = (Inr (), L')"
    and "\<forall>c \<in> set (components L'). page c \<noteq> page_name"
    and "\<exists>n \<in> set (nets L'). page_name \<in> pages n"
  shows "get_page ops L page_name = (Inr (''# No components on this page'' @ [newline]), L')
       \<and> page_components L' page_name = []
       \<and> page_nets L' page_name = []"
proof -
  have pc: "page_components L' page_name = []"
    using assms(2) by (simp add: page_components_empty)
  then have pn: "page_nets L' page_name = []"
    by (simp add: page_nets_def)
  have "get_page_text L' page_name = Inr no_components_text"
    using pc assms(3) by (simp add: get_page_text_def emit_page_dsl_def)
  then show ?thesis
    using pc pn by (simp add: get_page_after_refresh [OF assms(1)] no_components_text_def)
qed

theorem get_page_nets_only_witness:
  "refresh demo_provider demo_cached = (Inr (), demo_cached)
   \<and> filter (\<lambda>c. page c = ''Power'') (components demo_cached) = []
   \<and> (\<exists>n \<in> set (nets demo_cached). ''Power'' \<in> pages n)
   \<and> get_page demo_provider demo_cached ''Power''
       = (Inr (''# No components on this page'' @ [newline]), demo_cached)"
proof -
  have a: "\<forall>c \<in> set (components demo_cached). page c \<noteq> ''Power''"
    by (simp add: demo_cached_fields demo_u1_def)
  have b: "\<exists>n \<in> set (nets demo_cached). ''Power'' \<in> pages n"
    by (simp add: demo_cached_fields uart_tx_def)
  show ?thesis
    using a b demo_cached_clean get_page_nets_only [OF demo_cached_clean a b]
    by (simp add: filter_empty_conv)
qed

section \<open>Context queries\<close>

subsection \<open>The two readings of the Librarian agree\<close>

lemma nth_appended_range: "map (\<lambda>a. (xs @ ys) ! a) [length xs..<length xs + length ys] = ys"
proof (rule nth_equalityI)
  show "length (map (\<lambda>a. (xs @ ys) ! a) [length xs..<length xs + length ys]) = length ys"
    by simp
next
  fix i
  assume "i < length (map (\<lambda>a. (xs @ ys) ! a) [length xs..<length xs + length ys])"
  then have "i < length ys" by simp
  then show "map (\<lambda>a. (xs @ ys) ! a) [length xs..<length xs + length ys] ! i = ys ! i"
    by (simp add: nth_append)
qed

lemma nth_append_old:
  "(\<And>a. a \<in> set refs \<Longrightarrow> a < length xs) \<Longrightarrow>
     map (\<lambda>a. (xs @ ys) ! a) refs = map (\<lambda>a. xs ! a) refs"
  by (simp add: nth_append)

text \<open>
  \<open>refresh\<close> on the Librarian read through its references does what \<open>refresh\<close> on the
  objects does.
\<close>

lemma refresh_objects_cached:
  "refresh ops (cached S)
     = (fst (refresh_objects ops S), cached (snd (refresh_objects ops S)))"
  by (auto simp: refresh_def refresh_objects_def cached_def nth_appended_range
        split: prod.splits sum.splits)

lemma refresh_objects_clean: "\<not> dirty_o S \<Longrightarrow> refresh_objects ops S = (Inr (), S)"
  by (simp add: refresh_objects_def)

text \<open>\<open>refresh\<close> makes objects and changes none.\<close>

lemma refresh_objects_keeps_objects:
  "take (length (net_objects S)) (net_objects (snd (refresh_objects ops S))) = net_objects S"
  by (auto simp: refresh_objects_def split: prod.splits sum.splits)

lemma refresh_objects_refs_valid:
  assumes "refs_valid S"
  shows "refs_valid (snd (refresh_objects ops S))"
  using assms
  by (auto simp: refresh_objects_def refs_valid_def list_all_iff split: prod.splits sum.splits)

subsection \<open>The loop that makes the views\<close>

lemma build_context_nets_eq:
  "(\<And>a. a \<in> set refs \<Longrightarrow> a < length objs) \<Longrightarrow>
     build_context_nets ctx objs refs
       = (objs @ map (\<lambda>a. context_view ctx (objs ! a)) refs,
          [length objs..<length objs + length refs])"
proof (induction refs arbitrary: objs)
  case Nil
  show ?case by simp
next
  case (Cons a refs)
  let ?v = "context_view ctx (objs ! a)"
  have ih: "build_context_nets ctx (objs @ [?v]) refs
      = ((objs @ [?v]) @ map (\<lambda>a. context_view ctx ((objs @ [?v]) ! a)) refs,
         [length (objs @ [?v])..<length (objs @ [?v]) + length refs])"
  proof (rule Cons.IH)
    fix a' assume "a' \<in> set refs"
    then have "a' < length objs" using Cons.prems by simp
    then show "a' < length (objs @ [?v])" by simp
  qed
  have m: "map (\<lambda>a. context_view ctx ((objs @ [?v]) ! a)) refs
      = map (\<lambda>a. context_view ctx (objs ! a)) refs"
    using Cons.prems by (simp add: nth_append)
  have step: "build_context_nets ctx objs (a # refs)
      = (let (objs', context_refs) = build_context_nets ctx (objs @ [?v]) refs
         in (objs', length objs # context_refs))"
    by (simp add: context_view_def Let_def)
  show ?case
    unfolding step ih m by (simp add: upt_conv_Cons del: upt_Suc)
qed

lemma connected_net_refs_valid:
  "refs_valid S \<Longrightarrow> a \<in> set (connected_net_refs S refdes_list) \<Longrightarrow> a < length (net_objects S)"
  by (auto simp: refs_valid_def connected_net_refs_def list_all_iff)

lemma context_net_objects_eq:
  assumes "refs_valid S"
  shows "context_net_objects S refdes_list
     = (net_objects S
          @ map (\<lambda>a. context_view (context_refdes (cached S) refdes_list) (net_objects S ! a))
              (connected_net_refs S refdes_list),
        [length (net_objects S)..<
           length (net_objects S) + length (connected_net_refs S refdes_list)])"
  unfolding context_net_objects_def
  by (rule build_context_nets_eq) (rule connected_net_refs_valid [OF assms])

text \<open>The nets read through the connected references are the connected nets.\<close>

lemma connected_net_refs_nets:
  "map (\<lambda>a. net_objects S ! a) (connected_net_refs S refdes_list)
     = connected_nets (cached S) refdes_list"
  by (simp add: connected_net_refs_def connected_nets_def cached_def filter_map comp_def)

text \<open>
  Every member of a connected net is primary or a neighbor, so the view of a connected
  net has all the members of the net.
\<close>

lemma connected_net_members_in_context:
  assumes "n \<in> set (connected_nets L refdes_list)"
  shows "filter (\<lambda>(r, pin_designator). r \<in> context_refdes L refdes_list) (members n) = members n"
proof -
  have "r \<in> context_refdes L refdes_list" if "(r, d) \<in> set (members n)" for r d
  proof (cases "r \<in> primary_refdes_set L refdes_list")
    case True
    then show ?thesis by (simp add: context_refdes_def)
  next
    case False
    from that assms
    have "r \<in> fst ` (\<Union>n \<in> set (connected_nets L refdes_list). set (members n))"
      by force
    with False show ?thesis by (auto simp: context_refdes_def neighbor_refdes_set_def)
  qed
  then show ?thesis by (auto simp: filter_id_conv)
qed

subsection \<open>The query\<close>

lemma get_context_cases:
  assumes r: "refresh_objects ops S = (Inr (), S')" and v: "refs_valid S'"
  shows "get_context ops S refdes_list
     = (if refdes_list = [] \<or> primary_components (cached S') refdes_list = []
        then (fst (get_context ops S refdes_list), S')
        else (emit_context_dsl (primary_components (cached S') refdes_list)
                (neighbor_components (cached S') refdes_list)
                (map (\<lambda>a. context_view (context_refdes (cached S') refdes_list)
                             (net_objects S' ! a))
                   (connected_net_refs S' refdes_list)),
              S'\<lparr>net_objects := net_objects S'
                   @ map (\<lambda>a. context_view (context_refdes (cached S') refdes_list)
                                (net_objects S' ! a))
                       (connected_net_refs S' refdes_list)\<rparr>))"
proof -
  let ?views = "map (\<lambda>a. context_view (context_refdes (cached S') refdes_list)
                             (net_objects S' ! a))
                   (connected_net_refs S' refdes_list)"
  have n: "map (\<lambda>a. (net_objects S' @ ?views) ! a)
             [length (net_objects S')..<
                length (net_objects S') + length (connected_net_refs S' refdes_list)]
           = ?views"
    using nth_appended_range [of "net_objects S'" ?views] by simp
  show ?thesis
    by (simp add: get_context_def r context_net_objects_eq [OF v] n)
qed

lemma cached_appended:
  assumes "refs_valid S"
  shows "cached (S\<lparr>net_objects := net_objects S @ X\<rparr>) = cached S"
  using assms by (simp add: cached_def refs_valid_def list_all_iff nth_append)

lemma get_context_appends:
  assumes r: "refresh_objects ops S = (Inr (), S')" and v: "refs_valid S'"
  shows "\<exists>X. snd (get_context ops S refdes_list) = S'\<lparr>net_objects := net_objects S' @ X\<rparr>"
proof (cases "refdes_list = [] \<or> primary_components (cached S') refdes_list = []")
  case True
  then have "snd (get_context ops S refdes_list) = S'"
    by (subst get_context_cases [OF r v]) simp
  then have "snd (get_context ops S refdes_list) = S'\<lparr>net_objects := net_objects S' @ []\<rparr>"
    by simp
  then show ?thesis by (rule exI [of _ "[]"])
next
  case False
  let ?views = "map (\<lambda>a. context_view (context_refdes (cached S') refdes_list)
                             (net_objects S' ! a))
                   (connected_net_refs S' refdes_list)"
  from False have "snd (get_context ops S refdes_list)
      = S'\<lparr>net_objects := net_objects S' @ ?views\<rparr>"
    by (subst get_context_cases [OF r v]) simp
  then show ?thesis by (rule exI [of _ ?views])
qed

lemma views_of_connected:
  assumes v: "refs_valid S'"
    and o: "objs = net_objects S' @ map (\<lambda>a. context_view ctx (net_objects S' ! a)) refs"
    and c: "\<And>a. a \<in> set refs \<Longrightarrow> a \<in> set (nets_o S')"
  shows "list_all2 (\<lambda>v a. v \<notin> set (nets_o S') \<and> a \<in> set (nets_o S')
                    \<and> net_name (objs ! v) = net_name (net_objects S' ! a)
                    \<and> pages (objs ! v) = pages (net_objects S' ! a)
                    \<and> members (objs ! v)
                        = filter (\<lambda>(r, pin_designator). r \<in> ctx) (members (net_objects S' ! a)))
           [length (net_objects S')..<length (net_objects S') + length refs] refs"
proof (rule list_all2_all_nthI)
  show "length [length (net_objects S')..<length (net_objects S') + length refs] = length refs"
    by simp
next
  fix i
  assume "i < length [length (net_objects S')..<length (net_objects S') + length refs]"
  then have i: "i < length refs" by simp
  then have n: "[length (net_objects S')..<length (net_objects S') + length refs] ! i
      = length (net_objects S') + i"
    by simp
  have new: "length (net_objects S') + i \<notin> set (nets_o S')"
    using v by (auto simp: refs_valid_def list_all_iff)
  have old: "refs ! i \<in> set (nets_o S')"
    using i by (intro c nth_mem)
  have view: "objs ! (length (net_objects S') + i) = context_view ctx (net_objects S' ! (refs ! i))"
    using i by (simp add: o)
  show "[length (net_objects S')..<length (net_objects S') + length refs] ! i \<notin> set (nets_o S')
      \<and> refs ! i \<in> set (nets_o S')
      \<and> net_name (objs ! ([length (net_objects S')..<length (net_objects S') + length refs] ! i))
          = net_name (net_objects S' ! (refs ! i))
      \<and> pages (objs ! ([length (net_objects S')..<length (net_objects S') + length refs] ! i))
          = pages (net_objects S' ! (refs ! i))
      \<and> members (objs ! ([length (net_objects S')..<length (net_objects S') + length refs] ! i))
          = filter (\<lambda>(r, pin_designator). r \<in> ctx) (members (net_objects S' ! (refs ! i)))"
    unfolding n view using new old by (simp add: context_view_def)
qed

text \<open>
  C5, as the code has it. Once the refresh that opens the query has succeeded,
  \<open>get_context\<close> leaves the cache as that refresh left it: \<open>self.nets\<close> refers to the same
  \<open>Net\<close> objects, every \<open>Net\<close> object that existed is unchanged, and so each cached net has
  the member list it had; for a Librarian that was not stale that is the state before the
  call. For requested components that exist, the nets handed to the emitter are the
  objects the call has made, one for each cached net with a member on a primary
  component, in order: none of them is a cached object, and each has the name and pages
  of its cached net and that net's members on primary and neighbor reference designators.
\<close>

theorem get_context_keeps_cache:
  assumes "refs_valid S" and "refresh_objects ops S = (Inr (), S')"
  shows "nets_o (snd (get_context ops S refdes_list)) = nets_o S'
       \<and> take (length (net_objects S')) (net_objects (snd (get_context ops S refdes_list)))
           = net_objects S'
       \<and> cached (snd (get_context ops S refdes_list)) = cached S'
       \<and> map members (nets (cached (snd (get_context ops S refdes_list))))
           = map members (nets (cached S'))
       \<and> (\<not> dirty_o S \<longrightarrow>
            nets_o (snd (get_context ops S refdes_list)) = nets_o S
            \<and> take (length (net_objects S)) (net_objects (snd (get_context ops S refdes_list)))
                = net_objects S
            \<and> map members (nets (cached (snd (get_context ops S refdes_list))))
                = map members (nets (cached S)))
       \<and> (refdes_list \<noteq> [] \<and> primary_components (cached S') refdes_list \<noteq> [] \<longrightarrow>
            length (net_objects (snd (get_context ops S refdes_list)))
              = length (net_objects S') + length (connected_net_refs S' refdes_list)
            \<and> fst (get_context ops S refdes_list)
                = emit_context_dsl (primary_components (cached S') refdes_list)
                    (neighbor_components (cached S') refdes_list)
                    (map (\<lambda>v. net_objects (snd (get_context ops S refdes_list)) ! v)
                       [length (net_objects S')..<
                          length (net_objects S') + length (connected_net_refs S' refdes_list)])
            \<and> list_all2
                (\<lambda>v a. v \<notin> set (nets_o S') \<and> a \<in> set (nets_o S')
                   \<and> net_name (net_objects (snd (get_context ops S refdes_list)) ! v)
                       = net_name (net_objects S' ! a)
                   \<and> pages (net_objects (snd (get_context ops S refdes_list)) ! v)
                       = pages (net_objects S' ! a)
                   \<and> members (net_objects (snd (get_context ops S refdes_list)) ! v)
                       = filter (\<lambda>(r, pin_designator).
                                   r \<in> context_refdes (cached S') refdes_list)
                           (members (net_objects S' ! a)))
                [length (net_objects S')..<
                   length (net_objects S') + length (connected_net_refs S' refdes_list)]
                (connected_net_refs S' refdes_list))"
proof -
  have v: "refs_valid S'"
    using refresh_objects_refs_valid [OF assms(1), of ops] by (simp add: assms(2))
  obtain X where X: "snd (get_context ops S refdes_list) = S'\<lparr>net_objects := net_objects S' @ X\<rparr>"
    using get_context_appends [OF assms(2) v, of refdes_list] by (elim exE)
  have f1: "nets_o (snd (get_context ops S refdes_list)) = nets_o S'"
    by (simp add: X)
  have f2: "take (length (net_objects S')) (net_objects (snd (get_context ops S refdes_list)))
           = net_objects S'"
    by (simp add: X)
  have f3: "cached (snd (get_context ops S refdes_list)) = cached S'"
    unfolding X by (rule cached_appended) (rule v)
  have f4: "map members (nets (cached (snd (get_context ops S refdes_list))))
           = map members (nets (cached S'))"
    by (simp only: f3)
  have same: "S' = S" if "\<not> dirty_o S"
    using assms(2) refresh_objects_clean [OF that, of ops] by simp
  have f5: "\<not> dirty_o S \<longrightarrow>
            nets_o (snd (get_context ops S refdes_list)) = nets_o S
            \<and> take (length (net_objects S)) (net_objects (snd (get_context ops S refdes_list)))
                = net_objects S
            \<and> map members (nets (cached (snd (get_context ops S refdes_list))))
                = map members (nets (cached S))"
    using f1 f2 f4 same by blast
  have f6: "length (net_objects (snd (get_context ops S refdes_list)))
              = length (net_objects S') + length (connected_net_refs S' refdes_list)
            \<and> fst (get_context ops S refdes_list)
                = emit_context_dsl (primary_components (cached S') refdes_list)
                    (neighbor_components (cached S') refdes_list)
                    (map (\<lambda>v. net_objects (snd (get_context ops S refdes_list)) ! v)
                       [length (net_objects S')..<
                          length (net_objects S') + length (connected_net_refs S' refdes_list)])
            \<and> list_all2
                (\<lambda>v a. v \<notin> set (nets_o S') \<and> a \<in> set (nets_o S')
                   \<and> net_name (net_objects (snd (get_context ops S refdes_list)) ! v)
                       = net_name (net_objects S' ! a)
                   \<and> pages (net_objects (snd (get_context ops S refdes_list)) ! v)
                       = pages (net_objects S' ! a)
                   \<and> members (net_objects (snd (get_context ops S refdes_list)) ! v)
                       = filter (\<lambda>(r, pin_designator).
                                   r \<in> context_refdes (cached S') refdes_list)
                           (members (net_objects S' ! a)))
                [length (net_objects S')..<
                   length (net_objects S') + length (connected_net_refs S' refdes_list)]
                (connected_net_refs S' refdes_list)"
    if ne: "refdes_list \<noteq> [] \<and> primary_components (cached S') refdes_list \<noteq> []"
  proof -
    let ?views = "map (\<lambda>a. context_view (context_refdes (cached S') refdes_list)
                             (net_objects S' ! a))
                   (connected_net_refs S' refdes_list)"
    from ne have g: "get_context ops S refdes_list
        = (emit_context_dsl (primary_components (cached S') refdes_list)
             (neighbor_components (cached S') refdes_list) ?views,
           S'\<lparr>net_objects := net_objects S' @ ?views\<rparr>)"
      by (subst get_context_cases [OF assms(2) v]) simp
    have o: "net_objects (snd (get_context ops S refdes_list)) = net_objects S' @ ?views"
      by (simp add: g)
    have l: "length (net_objects (snd (get_context ops S refdes_list)))
              = length (net_objects S') + length (connected_net_refs S' refdes_list)"
      by (simp add: o)
    have m: "map (\<lambda>v. net_objects (snd (get_context ops S refdes_list)) ! v)
               [length (net_objects S')..<
                  length (net_objects S') + length (connected_net_refs S' refdes_list)]
             = ?views"
      unfolding o using nth_appended_range [of "net_objects S'" ?views] by simp
    have t: "fst (get_context ops S refdes_list)
                = emit_context_dsl (primary_components (cached S') refdes_list)
                    (neighbor_components (cached S') refdes_list)
                    (map (\<lambda>v. net_objects (snd (get_context ops S refdes_list)) ! v)
                       [length (net_objects S')..<
                          length (net_objects S') + length (connected_net_refs S' refdes_list)])"
      unfolding m by (simp add: g)
    have c: "a \<in> set (nets_o S')" if "a \<in> set (connected_net_refs S' refdes_list)" for a
      using that by (simp add: connected_net_refs_def)
    note w = views_of_connected [OF v o c]
    show ?thesis by (intro conjI l t w)
  qed
  show ?thesis
    using f6 by (intro conjI f1 f2 f3 f4 f5 impI) blast+
qed

lemma rewiring_cached_fields:
  "provider_o rewiring_cached = 1" "\<not> dirty_o rewiring_cached"
  "components_o rewiring_cached = [demo_u1, demo_r1]"
  "nets_o rewiring_cached = [0]" "net_objects rewiring_cached = [uart_tx]"
  by (simp_all add: rewiring_cached_def refresh_objects_def rewiring_provider_def
        new_librarian_objects_def)

lemma rewiring_cached_reads:
  "primary_components (cached rewiring_cached) [''U1''] = [demo_u1]"
  "connected_net_refs rewiring_cached [''U1''] = [0]"
  "context_refdes (cached rewiring_cached) [''U1''] = {''U1''}"
proof -
  show p: "primary_components (cached rewiring_cached) [''U1''] = [demo_u1]"
    by (simp add: primary_components_def cached_def rewiring_cached_fields demo_u1_def
          demo_r1_def)
  then have s: "primary_refdes_set (cached rewiring_cached) [''U1''] = {''U1''}"
    by (simp add: primary_refdes_set_def demo_u1_def)
  show c: "connected_net_refs rewiring_cached [''U1''] = [0]"
    by (simp add: connected_net_refs_def s rewiring_cached_fields uart_tx_def)
  have "connected_nets (cached rewiring_cached) [''U1''] = [uart_tx]"
    using connected_net_refs_nets [of rewiring_cached "[''U1'']"]
    by (simp add: c rewiring_cached_fields)
  then show "context_refdes (cached rewiring_cached) [''U1''] = {''U1''}"
    by (simp add: context_refdes_def neighbor_refdes_set_def s uart_tx_def)
qed

theorem get_context_keeps_cache_witness:
  "refs_valid rewiring_cached
   \<and> refresh_objects rewiring_provider rewiring_cached = (Inr (), rewiring_cached)
   \<and> \<not> dirty_o rewiring_cached
   \<and> primary_components (cached rewiring_cached) [''U1''] = [demo_u1]
   \<and> nets_o rewiring_cached = [0]
   \<and> net_objects rewiring_cached = [uart_tx]
   \<and> nets_o (snd (get_context rewiring_provider rewiring_cached [''U1''])) = [0]
   \<and> length (net_objects (snd (get_context rewiring_provider rewiring_cached [''U1'']))) = 2
   \<and> take 1 (net_objects (snd (get_context rewiring_provider rewiring_cached [''U1''])))
       = [uart_tx]
   \<and> net_name (net_objects (snd (get_context rewiring_provider rewiring_cached [''U1''])) ! 1)
       = ''UART_TX''
   \<and> members (net_objects (snd (get_context rewiring_provider rewiring_cached [''U1''])) ! 1)
       = [(''U1'', ''22'')]
   \<and> map members (nets (cached (snd (get_context rewiring_provider rewiring_cached [''U1'']))))
       = [[(''U1'', ''22'')]]"
proof -
  have v: "refs_valid rewiring_cached"
    by (simp add: refs_valid_def rewiring_cached_fields)
  have r: "refresh_objects rewiring_provider rewiring_cached = (Inr (), rewiring_cached)"
    by (rule refresh_objects_clean) (simp add: rewiring_cached_fields)
  have m: "map members (nets (cached rewiring_cached)) = [[(''U1'', ''22'')]]"
    by (simp add: cached_def rewiring_cached_fields uart_tx_def)
  show ?thesis
    using v r m get_context_keeps_cache [OF v r, of "[''U1'']"]
    by (simp add: rewiring_cached_fields rewiring_cached_reads uart_tx_def)
qed

text \<open>
  C5 as stated fails for a stale Librarian: the call refreshes the cache first, and where
  the schematic has changed in between, the cached nets have other member lists after
  the call than before it. Here a resistor was wired to the net between the two fetches.
\<close>

theorem get_context_stale_counterexample:
  "dirty_o rewiring_stale
   \<and> primary_components (cached rewiring_stale) [''U1''] = [demo_u1]
   \<and> map members (nets (cached rewiring_stale)) = [[(''U1'', ''22'')]]
   \<and> \<not> isl (fst (get_context rewiring_provider rewiring_stale [''U1'']))
   \<and> map members (nets (cached (snd (get_context rewiring_provider rewiring_stale [''U1'']))))
       = [[(''U1'', ''22''), (''R1'', ''1'')]]"
proof -
  have c1: "dirty_o rewiring_stale" by (simp add: rewiring_stale_def mark_dirty_objects_def)
  have c2: "primary_components (cached rewiring_stale) [''U1''] = [demo_u1]"
    by (simp add: primary_components_def cached_def rewiring_stale_def mark_dirty_objects_def
          rewiring_cached_fields demo_u1_def demo_r1_def)
  have c3: "map members (nets (cached rewiring_stale)) = [[(''U1'', ''22'')]]"
    by (simp add: cached_def rewiring_stale_def mark_dirty_objects_def rewiring_cached_fields
          uart_tx_def)
  have c4: "\<not> isl (fst (get_context rewiring_provider rewiring_stale [''U1'']))"
    by code_simp
  have c5: "map members (nets (cached (snd (get_context rewiring_provider rewiring_stale
               [''U1''])))) = [[(''U1'', ''22''), (''R1'', ''1'')]]"
    by code_simp
  show ?thesis by (intro conjI c1 c2 c3 c4 c5)
qed

end
